theory Spec2Isabelle
  imports Main "HOL-Library.Word"
begin

unbundle bit_operations_syntax

section \<open>The KGSL IOMMU backend (drivers/gpu/msm/kgsl_iommu.c)\<close>

subsection \<open>Data model\<close>

text \<open>
  Pointers are 32-bit addresses (the target is 32-bit ARM, and the driver itself casts a
  domain pointer to \<open>unsigned int\<close>); the null pointer is \<open>0\<close>.
\<close>

type_synonym ptr = "32 word"

text \<open>
  The macros the functions use are declared in headers that are not among the sources
  (kgsl.h, kgsl_mmu.h, kgsl_iommu.h, linux/iommu.h, errno). Their values are parameters
  of the model: every function takes the record of them as its first argument.
\<close>

record hdr =
  KGSL_FLAGS_STARTED :: "32 word"
  KGSL_IOMMU_MAX_UNITS :: nat
  KGSL_IOMMU_MAX_DEVS_PER_UNIT :: nat
  KGSL_IOMMU_CONTEXT_USER :: int
  KGSL_IOMMU_CONTEXT_PRIV :: int
  KGSL_MMU_ALIGN_MASK :: "32 word"
  KGSL_MMU_GLOBAL_PT :: "32 word"
  KGSL_TIMEOUT_DEFAULT :: "32 word"
  MH_MMU_CONFIG :: "32 word"
  IOMMU_READ :: "32 word"
  IOMMU_WRITE :: "32 word"
  EINVAL :: int
  ENOMEM :: int

text \<open>
  \<open>struct kgsl_iommu_device\<close>: the member \<open>dev\<close> of the C struct (a \<open>struct device *\<close>)
  is called \<open>device\<close> here, since the enclosing unit has an array member of the same name.
\<close>

record kgsl_iommu_device =
  device :: ptr
  attached :: bool
  ctx_id :: int

text \<open>\<open>struct kgsl_iommu_unit\<close>: a fixed array of devices and the count of those in use.\<close>

record kgsl_iommu_unit =
  dev :: "kgsl_iommu_device list"
  dev_count :: nat

text \<open>\<open>struct kgsl_iommu\<close>: a fixed array of units and the count of those in use.\<close>

record kgsl_iommu =
  iommu_units :: "kgsl_iommu_unit list"
  unit_count :: nat

text \<open>
  \<open>struct kgsl_mmu\<close>, the members this file uses. \<open>priv\<close> points to the
  \<open>struct kgsl_iommu\<close> that init allocates and owns; \<open>None\<close> is the null pointer.
  \<open>hwpagetable\<close> and \<open>defaultpagetable\<close> are addresses of \<open>struct kgsl_pagetable\<close>
  objects, compared as addresses.
\<close>

record kgsl_mmu =
  flags :: "32 word"
  hwpagetable :: ptr
  defaultpagetable :: ptr
  priv :: "kgsl_iommu option"

text \<open>Calls to the logging macros.\<close>

datatype log = KGSL_CORE_ERR | KGSL_MEM_ERR | KGSL_MEM_INFO | KGSL_DRV_INFO | Dev_info

text \<open>
  Calls the driver makes to functions defined outside this file, with their arguments;
  a call of \<open>iommu_attach_device\<close> also with the value it returned.
\<close>

datatype call =
    Kzalloc
  | Kfree
  | Msm_iommu_get_ctx string
  | Kgsl_mmu_getpagetable "32 word"
  | Kgsl_regwrite "32 word" "32 word"
  | Kgsl_idle "32 word"
  | Iommu_attach_device ptr ptr int
  | Iommu_detach_device ptr ptr
  | Iommu_map_range ptr "32 word" ptr "32 word" "32 word"
  | Iommu_unmap_range ptr "32 word" "32 word"
  | Log log

text \<open>
  What the functions defined outside this file return to the driver during one operation.
  \<open>kzalloc\<close> is whether the allocation succeeds; the others are the return values, as
  functions of the arguments.
\<close>

record env =
  kzalloc :: bool
  msm_iommu_get_ctx :: "string \<Rightarrow> ptr"
  kgsl_mmu_getpagetable :: "32 word \<Rightarrow> ptr"
  kgsl_idle :: "32 word \<Rightarrow> int"
  iommu_attach_device :: "ptr \<Rightarrow> ptr \<Rightarrow> int"
  iommu_map_range :: "ptr \<Rightarrow> 32 word \<Rightarrow> ptr \<Rightarrow> 32 word \<Rightarrow> 32 word \<Rightarrow> int"
  iommu_unmap_range :: "ptr \<Rightarrow> 32 word \<Rightarrow> 32 word \<Rightarrow> int"

text \<open>
  The device the operations act on: \<open>mmu\<close> is the member \<open>device->mmu\<close>;
  \<open>pt_priv\<close> is the memory holding the pagetable objects, read as the member \<open>priv\<close>
  (the IOMMU domain) of the \<open>struct kgsl_pagetable\<close> at an address; \<open>calls\<close> records
  the calls made so far, oldest first.
\<close>

record kgsl_device =
  mmu :: kgsl_mmu
  pt_priv :: "ptr \<Rightarrow> ptr"
  calls :: "call list"

text \<open>
  Ways an operation ends without returning: a \<open>BUG_ON\<close> that fires, the dereference of a
  null pointer, an array index outside the array.
\<close>

datatype fault = BUG | NullDeref | OutOfBounds

text \<open>\<open>struct kgsl_memdesc\<close>, the members this file uses (\<open>size\<close> is \<open>memdesc_size\<close>).\<close>

record kgsl_memdesc =
  gpuaddr :: "32 word"
  memdesc_size :: "32 word"
  sg :: ptr

text \<open>
  Modelled from the spec: the platform data (\<open>struct kgsl_device_platform_data\<close>,
  \<open>struct kgsl_device_iommu_data\<close>, \<open>struct kgsl_iommu_ctxt\<close>) is declared in
  linux/msm_kgsl.h, which is not among the sources. The spec describes it as a count of
  units and, per unit, an ordered list of (context name, context kind) pairs; the counts
  \<open>iommu_count\<close> and \<open>iommu_ctx_count\<close> are the lengths of the lists. A name is a
  C string pointer, which the code tests for null. The member \<open>ctx_id\<close> of an entry is
  called \<open>decl_ctx_id\<close>.
\<close>

record kgsl_iommu_ctxt =
  iommu_ctx_name :: "string option"
  decl_ctx_id :: int

type_synonym kgsl_device_iommu_data = "kgsl_iommu_ctxt list"

type_synonym kgsl_device_platform_data = "kgsl_device_iommu_data list"

definition started :: "hdr \<Rightarrow> kgsl_device \<Rightarrow> bool" where
  "started h d = (flags (mmu d) AND KGSL_FLAGS_STARTED h \<noteq> 0)"

subsection \<open>Detaching and attaching the domain of the hardware pagetable\<close>

text \<open>The inner loop of \<open>kgsl_detach_pagetable_iommu_domain\<close>, from index \<open>j\<close>.\<close>

function detach_devs :: "ptr \<Rightarrow> nat \<Rightarrow> kgsl_iommu_unit \<times> call list \<Rightarrow>
    fault + kgsl_iommu_unit \<times> call list" where
  "detach_devs domain j (u, cs) =
     (if j < dev_count u then
        if length (dev u) \<le> j then Inl OutOfBounds
        else if attached (dev u ! j) then
          detach_devs domain (j + 1)
            (u\<lparr>dev := (dev u)[j := (dev u ! j)\<lparr>attached := False\<rparr>]\<rparr>,
             cs @ [Iommu_detach_device domain (device (dev u ! j)), Log KGSL_MEM_INFO])
        else detach_devs domain (j + 1) (u, cs)
      else Inr (u, cs))"
  by pat_completeness auto
termination
  by (relation "measure (\<lambda>(domain, j, u, cs). dev_count u - j)") auto

text \<open>The outer loop of \<open>kgsl_detach_pagetable_iommu_domain\<close>, from index \<open>i\<close>.\<close>

function detach_units :: "ptr \<Rightarrow> nat \<Rightarrow> kgsl_iommu \<times> call list \<Rightarrow>
    fault + kgsl_iommu \<times> call list" where
  "detach_units domain i (io, cs) =
     (if i < unit_count io then
        if length (iommu_units io) \<le> i then Inl OutOfBounds
        else case detach_devs domain 0 (iommu_units io ! i, cs) of
               Inl f \<Rightarrow> Inl f
             | Inr (u', cs') \<Rightarrow>
                 detach_units domain (i + 1)
                   (io\<lparr>iommu_units := (iommu_units io)[i := u']\<rparr>, cs')
      else Inr (io, cs))"
  by pat_completeness auto
termination
  by (relation "measure (\<lambda>(domain, i, io, cs). unit_count io - i)") auto

definition kgsl_detach_pagetable_iommu_domain :: "kgsl_device \<Rightarrow> fault + kgsl_device" where
  "kgsl_detach_pagetable_iommu_domain d =
     (if hwpagetable (mmu d) = 0 then Inl BUG
      else if pt_priv d (hwpagetable (mmu d)) = 0 then Inl BUG
      else case priv (mmu d) of
             None \<Rightarrow> Inl NullDeref
           | Some io \<Rightarrow>
               (case detach_units (pt_priv d (hwpagetable (mmu d))) 0 (io, calls d) of
                  Inl f \<Rightarrow> Inl f
                | Inr (io', cs') \<Rightarrow> Inr (d\<lparr>mmu := (mmu d)\<lparr>priv := Some io'\<rparr>, calls := cs'\<rparr>)))"

text \<open>
  The inner loop of \<open>kgsl_attach_pagetable_iommu_domain\<close>, from index \<open>j\<close>. It returns
  the value of \<open>ret\<close>: the loop goes on only while \<open>ret\<close> is 0, a non-zero value leaves
  both loops (\<open>goto done\<close>).
\<close>

function attach_devs :: "env \<Rightarrow> ptr \<Rightarrow> nat \<Rightarrow> kgsl_iommu_unit \<times> call list \<Rightarrow>
    fault + int \<times> kgsl_iommu_unit \<times> call list" where
  "attach_devs e domain j (u, cs) =
     (if j < dev_count u then
        if length (dev u) \<le> j then Inl OutOfBounds
        else if \<not> attached (dev u ! j) then
          (let ret = iommu_attach_device e domain (device (dev u ! j));
               cs1 = cs @ [Iommu_attach_device domain (device (dev u ! j)) ret]
           in if ret \<noteq> 0 then Inr (ret, u, cs1 @ [Log KGSL_MEM_ERR])
              else attach_devs e domain (j + 1)
                     (u\<lparr>dev := (dev u)[j := (dev u ! j)\<lparr>attached := True\<rparr>]\<rparr>,
                      cs1 @ [Log KGSL_MEM_INFO]))
        else attach_devs e domain (j + 1) (u, cs)
      else Inr (0, u, cs))"
  by pat_completeness auto
termination
  by (relation "measure (\<lambda>(e, domain, j, u, cs). dev_count u - j)") auto

text \<open>The outer loop of \<open>kgsl_attach_pagetable_iommu_domain\<close>, from index \<open>i\<close>.\<close>

function attach_units :: "env \<Rightarrow> ptr \<Rightarrow> nat \<Rightarrow> kgsl_iommu \<times> call list \<Rightarrow>
    fault + int \<times> kgsl_iommu \<times> call list" where
  "attach_units e domain i (io, cs) =
     (if i < unit_count io then
        if length (iommu_units io) \<le> i then Inl OutOfBounds
        else case attach_devs e domain 0 (iommu_units io ! i, cs) of
               Inl f \<Rightarrow> Inl f
             | Inr (ret, u', cs') \<Rightarrow>
                 if ret \<noteq> 0 then Inr (ret, io\<lparr>iommu_units := (iommu_units io)[i := u']\<rparr>, cs')
                 else attach_units e domain (i + 1)
                        (io\<lparr>iommu_units := (iommu_units io)[i := u']\<rparr>, cs')
      else Inr (0, io, cs))"
  by pat_completeness auto
termination
  by (relation "measure (\<lambda>(e, domain, i, io, cs). unit_count io - i)") auto

definition kgsl_attach_pagetable_iommu_domain ::
    "env \<Rightarrow> kgsl_device \<Rightarrow> fault + int \<times> kgsl_device" where
  "kgsl_attach_pagetable_iommu_domain e d =
     (if hwpagetable (mmu d) = 0 then Inl BUG
      else if pt_priv d (hwpagetable (mmu d)) = 0 then Inl BUG
      else case priv (mmu d) of
             None \<Rightarrow> Inl NullDeref
           | Some io \<Rightarrow>
               (case attach_units e (pt_priv d (hwpagetable (mmu d))) 0 (io, calls d) of
                  Inl f \<Rightarrow> Inl f
                | Inr (ret, io', cs') \<Rightarrow>
                    Inr (ret, d\<lparr>mmu := (mmu d)\<lparr>priv := Some io'\<rparr>, calls := cs'\<rparr>)))"

subsection \<open>Discovery of the contexts (init)\<close>

text \<open>
  The loop of \<open>_get_iommu_ctxs\<close> over the entries of one unit's platform data. An entry
  with a null name is skipped. The handle is stored in the next free slot before it is
  tested.
\<close>

fun get_ctxs_loop :: "hdr \<Rightarrow> env \<Rightarrow> kgsl_iommu_ctxt list \<Rightarrow> kgsl_iommu_unit \<times> call list \<Rightarrow>
    fault + int \<times> kgsl_iommu_unit \<times> call list" where
  "get_ctxs_loop h e [] (u, cs) = Inr (0, u, cs)"
| "get_ctxs_loop h e (c # rest) (u, cs) =
     (case iommu_ctx_name c of
        None \<Rightarrow> get_ctxs_loop h e rest (u, cs)
      | Some name \<Rightarrow>
          if length (dev u) \<le> dev_count u then Inl OutOfBounds
          else
            (let u1 = u\<lparr>dev := (dev u)[dev_count u :=
                         (dev u ! dev_count u)\<lparr>device := msm_iommu_get_ctx e name\<rparr>]\<rparr>;
                 cs1 = cs @ [Msm_iommu_get_ctx name]
             in if device (dev u1 ! dev_count u1) = 0
                then Inr (- EINVAL h, u1, cs1 @ [Log KGSL_CORE_ERR])
                else if KGSL_IOMMU_CONTEXT_USER h \<noteq> decl_ctx_id c \<and>
                        KGSL_IOMMU_CONTEXT_PRIV h \<noteq> decl_ctx_id c
                then Inr (- EINVAL h, u1, cs1 @ [Log KGSL_CORE_ERR])
                else get_ctxs_loop h e rest
                       (u1\<lparr>dev := (dev u1)[dev_count u1 :=
                              (dev u1 ! dev_count u1)\<lparr>ctx_id := decl_ctx_id c\<rparr>],
                           dev_count := dev_count u1 + 1\<rparr>,
                        cs1 @ [Log KGSL_DRV_INFO])))"

text \<open>\<open>_get_iommu_ctxs\<close> (an Isabelle name cannot start with an underscore).\<close>

definition get_iommu_ctxs :: "hdr \<Rightarrow> env \<Rightarrow> kgsl_device_iommu_data \<Rightarrow> nat \<Rightarrow>
    kgsl_iommu \<times> call list \<Rightarrow> fault + int \<times> kgsl_iommu \<times> call list" where
  "get_iommu_ctxs h e data unit_id = (\<lambda>(io, cs).
     if length data > KGSL_IOMMU_MAX_DEVS_PER_UNIT h
     then Inr (- EINVAL h, io, cs @ [Log KGSL_CORE_ERR])
     else if length (iommu_units io) \<le> unit_id then Inl OutOfBounds
     else case get_ctxs_loop h e data (iommu_units io ! unit_id, cs) of
            Inl f \<Rightarrow> Inl f
          | Inr (ret, u', cs') \<Rightarrow>
              Inr (ret, io\<lparr>iommu_units := (iommu_units io)[unit_id := u']\<rparr>, cs'))"

text \<open>
  The loop of \<open>kgsl_get_iommu_ctxt\<close> over the units of the platform data, at index \<open>i\<close>;
  it stops (\<open>break\<close>) at the first unit that fails.
\<close>

fun get_units_loop :: "hdr \<Rightarrow> env \<Rightarrow> kgsl_device_iommu_data list \<Rightarrow> nat \<Rightarrow>
    kgsl_iommu \<times> call list \<Rightarrow> fault + int \<times> kgsl_iommu \<times> call list" where
  "get_units_loop h e [] i (io, cs) = Inr (0, io, cs)"
| "get_units_loop h e (data # rest) i (io, cs) =
     (case get_iommu_ctxs h e data i (io, cs) of
        Inl f \<Rightarrow> Inl f
      | Inr (ret, io', cs') \<Rightarrow>
          if ret \<noteq> 0 then Inr (ret, io', cs')
          else get_units_loop h e rest (i + 1) (io', cs'))"

definition kgsl_get_iommu_ctxt :: "hdr \<Rightarrow> env \<Rightarrow> kgsl_device_platform_data \<Rightarrow>
    kgsl_iommu \<times> call list \<Rightarrow> fault + int \<times> kgsl_iommu \<times> call list" where
  "kgsl_get_iommu_ctxt h e pdata_dev = (\<lambda>(io, cs).
     if KGSL_IOMMU_MAX_UNITS h < length pdata_dev
     then Inr (- EINVAL h, io, cs @ [Log KGSL_CORE_ERR])
     else case get_units_loop h e pdata_dev 0 (io, cs) of
            Inl f \<Rightarrow> Inl f
          | Inr (ret, io', cs') \<Rightarrow> Inr (ret, io'\<lparr>unit_count := length pdata_dev\<rparr>, cs'))"

text \<open>The zeroed \<open>struct kgsl_iommu\<close> that \<open>kzalloc\<close> returns.\<close>

definition zeroed_iommu :: "hdr \<Rightarrow> kgsl_iommu" where
  "zeroed_iommu h =
     \<lparr>iommu_units = replicate (KGSL_IOMMU_MAX_UNITS h)
        \<lparr>dev = replicate (KGSL_IOMMU_MAX_DEVS_PER_UNIT h)
                 \<lparr>device = 0, attached = False, ctx_id = 0\<rparr>,
         dev_count = 0\<rparr>,
      unit_count = 0\<rparr>"

definition kgsl_iommu_init :: "hdr \<Rightarrow> env \<Rightarrow> kgsl_device_platform_data \<Rightarrow> kgsl_device \<Rightarrow>
    fault + int \<times> kgsl_device" where
  "kgsl_iommu_init h e pdata_dev d =
     (if \<not> kzalloc e
      then Inr (- ENOMEM h, d\<lparr>calls := calls d @ [Kzalloc, Log KGSL_CORE_ERR]\<rparr>)
      else case kgsl_get_iommu_ctxt h e pdata_dev (zeroed_iommu h, calls d @ [Kzalloc]) of
             Inl f \<Rightarrow> Inl f
           | Inr (status, io', cs') \<Rightarrow>
               if status \<noteq> 0
               then Inr (status, d\<lparr>mmu := (mmu d)\<lparr>priv := None\<rparr>, calls := cs' @ [Kfree]\<rparr>)
               else Inr (status, d\<lparr>mmu := (mmu d)\<lparr>priv := Some io'\<rparr>,
                                    calls := cs' @ [Log Dev_info]\<rparr>))"

subsection \<open>The operations of \<open>iommu_ops\<close> and \<open>iommu_pt_ops\<close>\<close>

text \<open>
  \<open>kgsl_iommu_setstate\<close> returns nothing. The value \<open>kgsl_idle\<close> returns and the value
  \<open>kgsl_attach_pagetable_iommu_domain\<close> returns are discarded.
\<close>

definition kgsl_iommu_setstate :: "hdr \<Rightarrow> env \<Rightarrow> kgsl_device \<Rightarrow> ptr \<Rightarrow> 32 word \<Rightarrow>
    fault + kgsl_device" where
  "kgsl_iommu_setstate h e d pagetable context_id =
     (if flags (mmu d) AND KGSL_FLAGS_STARTED h \<noteq> 0 then
        if hwpagetable (mmu d) \<noteq> pagetable then
          (case kgsl_detach_pagetable_iommu_domain
                  (d\<lparr>calls := calls d @ [Kgsl_idle (KGSL_TIMEOUT_DEFAULT h)]\<rparr>) of
             Inl f \<Rightarrow> Inl f
           | Inr d1 \<Rightarrow>
               (let d2 = d1\<lparr>mmu := (mmu d1)\<lparr>hwpagetable := pagetable\<rparr>\<rparr>
                in if hwpagetable (mmu d2) \<noteq> 0 then
                     (case kgsl_attach_pagetable_iommu_domain e d2 of
                        Inl f \<Rightarrow> Inl f
                      | Inr (ret, d3) \<Rightarrow> Inr d3)
                   else Inr d2))
        else Inr d
      else Inr d)"

definition kgsl_iommu_start :: "hdr \<Rightarrow> env \<Rightarrow> kgsl_device \<Rightarrow> fault + int \<times> kgsl_device" where
  "kgsl_iommu_start h e d =
     (if flags (mmu d) AND KGSL_FLAGS_STARTED h \<noteq> 0 then Inr (0, d)
      else
        (let d1 = d\<lparr>calls := calls d @ [Kgsl_regwrite (MH_MMU_CONFIG h) 0]\<rparr>;
             d2 = (if defaultpagetable (mmu d1) = 0
                   then d1\<lparr>mmu := (mmu d1)\<lparr>defaultpagetable :=
                                     kgsl_mmu_getpagetable e (KGSL_MMU_GLOBAL_PT h)\<rparr>,
                           calls := calls d1 @ [Kgsl_mmu_getpagetable (KGSL_MMU_GLOBAL_PT h)]\<rparr>
                   else d1)
         in if defaultpagetable (mmu d2) = 0 then Inr (- ENOMEM h, d2)
            else
              (case kgsl_attach_pagetable_iommu_domain e
                      (d2\<lparr>mmu := (mmu d2)\<lparr>hwpagetable := defaultpagetable (mmu d2)\<rparr>\<rparr>) of
                 Inl f \<Rightarrow> Inl f
               | Inr (status, d3) \<Rightarrow>
                   if status = 0
                   then Inr (status, d3\<lparr>mmu := (mmu d3)\<lparr>flags :=
                                           flags (mmu d3) OR KGSL_FLAGS_STARTED h\<rparr>\<rparr>)
                   else
                     (case kgsl_detach_pagetable_iommu_domain d3 of
                        Inl f \<Rightarrow> Inl f
                      | Inr d4 \<Rightarrow> Inr (status, d4\<lparr>mmu := (mmu d4)\<lparr>hwpagetable := 0\<rparr>\<rparr>)))))"

definition kgsl_iommu_stop :: "hdr \<Rightarrow> kgsl_device \<Rightarrow> fault + int \<times> kgsl_device" where
  "kgsl_iommu_stop h d =
     (if flags (mmu d) AND KGSL_FLAGS_STARTED h \<noteq> 0 then
        (case kgsl_detach_pagetable_iommu_domain d of
           Inl f \<Rightarrow> Inl f
         | Inr d1 \<Rightarrow>
             Inr (0, d1\<lparr>mmu := (mmu d1)\<lparr>hwpagetable := 0,
                         flags := flags (mmu d1) AND NOT (KGSL_FLAGS_STARTED h)\<rparr>\<rparr>))
      else Inr (0, d))"

text \<open>
  \<open>kgsl_iommu_unmap\<close> and \<open>kgsl_iommu_map\<close> take the domain (\<open>mmu_specific_pt\<close>) and a
  memory descriptor; they return the value and the calls made, in order.
\<close>

definition kgsl_iommu_unmap :: "hdr \<Rightarrow> env \<Rightarrow> ptr \<Rightarrow> kgsl_memdesc \<Rightarrow> int \<times> call list" where
  "kgsl_iommu_unmap h e mmu_specific_pt memdesc =
     (let range = memdesc_size memdesc;
          domain = mmu_specific_pt;
          gpuaddr' = gpuaddr memdesc AND KGSL_MMU_ALIGN_MASK h
      in if range = 0 \<or> gpuaddr' = 0 then (0, [])
         else
           (let ret = iommu_unmap_range e domain gpuaddr' range
            in if ret \<noteq> 0
               then (0, [Iommu_unmap_range domain gpuaddr' range, Log KGSL_CORE_ERR])
               else (0, [Iommu_unmap_range domain gpuaddr' range])))"

definition kgsl_iommu_map :: "hdr \<Rightarrow> env \<Rightarrow> ptr \<Rightarrow> kgsl_memdesc \<Rightarrow> 32 word \<Rightarrow>
    fault + int \<times> call list" where
  "kgsl_iommu_map h e mmu_specific_pt memdesc protflags =
     (let domain = mmu_specific_pt
      in if 0 = domain then Inl BUG
         else
           (let iommu_virt_addr = gpuaddr memdesc;
                ret = iommu_map_range e domain iommu_virt_addr (sg memdesc)
                        (memdesc_size memdesc) (IOMMU_READ h OR IOMMU_WRITE h);
                cs = [Iommu_map_range domain iommu_virt_addr (sg memdesc)
                        (memdesc_size memdesc) (IOMMU_READ h OR IOMMU_WRITE h)]
            in if ret \<noteq> 0 then Inr (ret, cs @ [Log KGSL_CORE_ERR])
               else Inr (ret, cs)))"

definition kgsl_iommu_get_current_ptbase :: "kgsl_device \<Rightarrow> fault + 32 word" where
  "kgsl_iommu_get_current_ptbase d =
     (if hwpagetable (mmu d) = 0 then Inl NullDeref
      else Inr (pt_priv d (hwpagetable (mmu d))))"

subsection \<open>Sequences of controller operations\<close>

text \<open>The operations of \<open>iommu_ops\<close>, each with what the outside returns during it.\<close>

datatype op =
    Mmu_init env kgsl_device_platform_data
  | Mmu_start env
  | Mmu_stop
  | Mmu_setstate env ptr "32 word"

fun step :: "hdr \<Rightarrow> op \<Rightarrow> kgsl_device \<Rightarrow> fault + kgsl_device" where
  "step h (Mmu_init e pdata_dev) d = map_sum id snd (kgsl_iommu_init h e pdata_dev d)"
| "step h (Mmu_start e) d = map_sum id snd (kgsl_iommu_start h e d)"
| "step h Mmu_stop d = map_sum id snd (kgsl_iommu_stop h d)"
| "step h (Mmu_setstate e pagetable context_id) d =
     kgsl_iommu_setstate h e d pagetable context_id"

fun run :: "hdr \<Rightarrow> op list \<Rightarrow> kgsl_device \<Rightarrow> fault + kgsl_device" where
  "run h [] d = Inr d"
| "run h (x # xs) d = (case step h x d of Inl f \<Rightarrow> Inl f | Inr d' \<Rightarrow> run h xs d')"

subsection \<open>Predicates on the state\<close>

text \<open>The counts stay within the arrays.\<close>

definition wf_unit :: "kgsl_iommu_unit \<Rightarrow> bool" where
  "wf_unit u = (dev_count u \<le> length (dev u))"

definition wf_iommu :: "kgsl_iommu \<Rightarrow> bool" where
  "wf_iommu io = (unit_count io \<le> length (iommu_units io) \<and>
     list_all wf_unit (take (unit_count io) (iommu_units io)))"

text \<open>The controller is initialised (\<open>priv\<close> is not null) and its counts are within the arrays.\<close>

definition wf_device :: "kgsl_device \<Rightarrow> bool" where
  "wf_device d = (case priv (mmu d) of None \<Rightarrow> False | Some io \<Rightarrow> wf_iommu io)"

text \<open>What attach and detach never change: the counts and the device handles.\<close>

definition unit_shape :: "kgsl_iommu_unit \<Rightarrow> nat \<times> ptr list" where
  "unit_shape u = (dev_count u, map device (dev u))"

definition iommu_shape :: "kgsl_iommu \<Rightarrow> nat \<times> (nat \<times> ptr list) list" where
  "iommu_shape io = (unit_count io, map unit_shape (iommu_units io))"

text \<open>The contexts in use are those below the counts; their attached flags.\<close>

definition none_attached_unit :: "kgsl_iommu_unit \<Rightarrow> bool" where
  "none_attached_unit u = list_all (\<lambda>c. \<not> attached c) (take (dev_count u) (dev u))"

definition all_attached_unit :: "kgsl_iommu_unit \<Rightarrow> bool" where
  "all_attached_unit u = list_all attached (take (dev_count u) (dev u))"

definition none_attached :: "kgsl_iommu \<Rightarrow> bool" where
  "none_attached io = list_all none_attached_unit (take (unit_count io) (iommu_units io))"

definition all_attached :: "kgsl_iommu \<Rightarrow> bool" where
  "all_attached io = list_all all_attached_unit (take (unit_count io) (iommu_units io))"

definition no_ctx_attached :: "kgsl_device \<Rightarrow> bool" where
  "no_ctx_attached d = (case priv (mmu d) of None \<Rightarrow> True | Some io \<Rightarrow> none_attached io)"

definition every_ctx_attached :: "kgsl_device \<Rightarrow> bool" where
  "every_ctx_attached d = (case priv (mmu d) of None \<Rightarrow> True | Some io \<Rightarrow> all_attached io)"

text \<open>The handles of the contexts in use, in discovery order.\<close>

definition ctx_handles :: "kgsl_iommu \<Rightarrow> ptr list" where
  "ctx_handles io =
     concat (map (\<lambda>u. take (dev_count u) (map device (dev u)))
       (take (unit_count io) (iommu_units io)))"

text \<open>\<open>iommu_attach_device\<close> accepts the domain on every context in use.\<close>

definition attach_ok :: "env \<Rightarrow> ptr \<Rightarrow> kgsl_iommu \<Rightarrow> bool" where
  "attach_ok e domain io =
     list_all (\<lambda>hnd. iommu_attach_device e domain hnd = 0) (ctx_handles io)"

text \<open>The calls that wait for idle, and the calls that map a range.\<close>

fun is_idle :: "call \<Rightarrow> bool" where
  "is_idle (Kgsl_idle t) = True"
| "is_idle _ = False"

fun is_map_range :: "call \<Rightarrow> bool" where
  "is_map_range (Iommu_map_range domain a s n p) = True"
| "is_map_range _ = False"

text \<open>What a detach or an attach leaves unchanged in the device.\<close>

definition same_frame :: "kgsl_device \<Rightarrow> kgsl_device \<Rightarrow> bool" where
  "same_frame d d' =
     (flags (mmu d') = flags (mmu d) \<and> hwpagetable (mmu d') = hwpagetable (mmu d) \<and>
      defaultpagetable (mmu d') = defaultpagetable (mmu d) \<and> pt_priv d' = pt_priv d \<and>
      map_option iommu_shape (priv (mmu d')) = map_option iommu_shape (priv (mmu d)) \<and>
      filter is_idle (calls d') = filter is_idle (calls d))"

text \<open>
  Modelled from the spec: \<open>iommu_attach_device\<close> and \<open>iommu_detach_device\<close> are defined in
  the IOMMU driver, which is not among the sources. The spec's glossary describes them
  as binding and unbinding a pagetable's domain to the hardware of a context: an attach
  that succeeds (returns 0) binds the context to the domain, a detach leaves it bound to
  no domain (0). \<open>bound_domain cs hnd\<close> is the domain the context \<open>hnd\<close> is bound to
  after the calls \<open>cs\<close>.
\<close>

fun bind_call :: "call \<Rightarrow> (ptr \<Rightarrow> ptr) \<Rightarrow> ptr \<Rightarrow> ptr" where
  "bind_call (Iommu_attach_device domain hnd ret) b = (if ret = 0 then b(hnd := domain) else b)"
| "bind_call (Iommu_detach_device domain hnd) b = b(hnd := 0)"
| "bind_call x b = b"

definition bound_domain :: "call list \<Rightarrow> ptr \<Rightarrow> ptr" where
  "bound_domain cs = fold bind_call cs (\<lambda>hnd. 0)"

text \<open>Every context in use that has its attached flag set is bound to the domain.\<close>

definition flagged_on_unit :: "call list \<Rightarrow> ptr \<Rightarrow> kgsl_iommu_unit \<Rightarrow> bool" where
  "flagged_on_unit cs domain u =
     list_all (\<lambda>c. attached c \<longrightarrow> bound_domain cs (device c) = domain)
       (take (dev_count u) (dev u))"

text \<open>Every context in use has its attached flag set and is bound to the domain.\<close>

definition all_on_unit :: "call list \<Rightarrow> ptr \<Rightarrow> kgsl_iommu_unit \<Rightarrow> bool" where
  "all_on_unit cs domain u =
     list_all (\<lambda>c. attached c \<and> bound_domain cs (device c) = domain)
       (take (dev_count u) (dev u))"

definition all_on :: "call list \<Rightarrow> ptr \<Rightarrow> kgsl_iommu \<Rightarrow> bool" where
  "all_on cs domain io =
     list_all (all_on_unit cs domain) (take (unit_count io) (iommu_units io))"

text \<open>The domain of the hardware pagetable is attached to every context in use.\<close>

definition every_ctx_on :: "kgsl_device \<Rightarrow> bool" where
  "every_ctx_on d =
     (case priv (mmu d) of
        None \<Rightarrow> True
      | Some io \<Rightarrow> all_on (calls d) (pt_priv d (hwpagetable (mmu d))) io)"

text \<open>
  The value the attach loop returns when no context in use is attached yet: the value
  \<open>iommu_attach_device\<close> returns for the first handle, in discovery order, on which it
  fails, and 0 when it fails on none.
\<close>

fun first_attach_error :: "env \<Rightarrow> ptr \<Rightarrow> ptr list \<Rightarrow> int" where
  "first_attach_error e domain [] = 0"
| "first_attach_error e domain (hnd # hs) =
     (if iommu_attach_device e domain hnd \<noteq> 0 then iommu_attach_device e domain hnd
      else first_attach_error e domain hs)"

text \<open>
  The invariant the specification states for the controller: when the started flag is
  set, the hardware pagetable is not null and its domain (not null either) is attached
  to every context in use, that is, every context in use has its attached flag set and
  is bound to that domain; when the flag is clear, no context in use has its attached
  flag set.
\<close>

definition MmuController_invariant :: "hdr \<Rightarrow> kgsl_device \<Rightarrow> bool" where
  "MmuController_invariant h d =
     (if started h d
      then hwpagetable (mmu d) \<noteq> 0 \<and> pt_priv d (hwpagetable (mmu d)) \<noteq> 0 \<and> every_ctx_on d
      else no_ctx_attached d)"

text \<open>
  The default pagetable that \<open>kgsl_iommu_start\<close> uses (the one set or, when none is set,
  the global one) and the device at the moment \<open>kgsl_iommu_start\<close> calls the attach.
\<close>

definition default_pt :: "hdr \<Rightarrow> env \<Rightarrow> kgsl_device \<Rightarrow> ptr" where
  "default_pt h e d =
     (if defaultpagetable (mmu d) = 0 then kgsl_mmu_getpagetable e (KGSL_MMU_GLOBAL_PT h)
      else defaultpagetable (mmu d))"

definition start_pre :: "hdr \<Rightarrow> env \<Rightarrow> kgsl_device \<Rightarrow> kgsl_device" where
  "start_pre h e d =
     (let d1 = d\<lparr>calls := calls d @ [Kgsl_regwrite (MH_MMU_CONFIG h) 0]\<rparr>;
          d2 = (if defaultpagetable (mmu d1) = 0
                then d1\<lparr>mmu := (mmu d1)\<lparr>defaultpagetable :=
                                  kgsl_mmu_getpagetable e (KGSL_MMU_GLOBAL_PT h)\<rparr>,
                        calls := calls d1 @ [Kgsl_mmu_getpagetable (KGSL_MMU_GLOBAL_PT h)]\<rparr>
                else d1)
      in d2\<lparr>mmu := (mmu d2)\<lparr>hwpagetable := defaultpagetable (mmu d2)\<rparr>\<rparr>)"

text \<open>
  The sequences of operations the amended invariant claim is about. An init is admissible
  on a controller that is not started. A \<open>setstate\<close> that switches (the controller is
  started and the pagetable is not the hardware pagetable) is admissible when the
  pagetable is not null and \<open>iommu_attach_device\<close> accepts its domain on every context in
  use. A sequence is admissible when each operation is, in the state it is applied to.
\<close>

fun admissible_op :: "hdr \<Rightarrow> op \<Rightarrow> kgsl_device \<Rightarrow> bool" where
  "admissible_op h (Mmu_init e pdata_dev) d = (\<not> started h d)"
| "admissible_op h (Mmu_setstate e pagetable context_id) d =
     (started h d \<and> hwpagetable (mmu d) \<noteq> pagetable \<longrightarrow>
        pagetable \<noteq> 0 \<and>
        (case priv (mmu d) of None \<Rightarrow> True
         | Some io \<Rightarrow> attach_ok e (pt_priv d pagetable) io))"
| "admissible_op h (Mmu_start e) d = True"
| "admissible_op h Mmu_stop d = True"

fun admissible :: "hdr \<Rightarrow> op list \<Rightarrow> kgsl_device \<Rightarrow> bool" where
  "admissible h [] d = True"
| "admissible h (x # xs) d =
     (admissible_op h x d \<and>
      (case step h x d of Inl f \<Rightarrow> True | Inr d' \<Rightarrow> admissible h xs d'))"

text \<open>No device of the array of a unit, in use or not, has its attached flag set.\<close>

definition no_flag :: "kgsl_iommu_unit \<Rightarrow> bool" where
  "no_flag u = (\<forall>c \<in> set (dev u). \<not> attached c)"

text \<open>
  The entries and units of the platform data that make \<open>_get_iommu_ctxs\<close> fail: an entry
  with a name that the platform lookup does not resolve or whose kind is neither the user
  nor the privileged context; a unit with more entries than the per-unit maximum or with
  such an entry.
\<close>

definition bad_ctxt :: "hdr \<Rightarrow> env \<Rightarrow> kgsl_iommu_ctxt \<Rightarrow> bool" where
  "bad_ctxt h e c =
     (case iommu_ctx_name c of
        None \<Rightarrow> False
      | Some name \<Rightarrow>
          msm_iommu_get_ctx e name = 0 \<or>
          (decl_ctx_id c \<noteq> KGSL_IOMMU_CONTEXT_USER h \<and>
           decl_ctx_id c \<noteq> KGSL_IOMMU_CONTEXT_PRIV h))"

definition bad_unit :: "hdr \<Rightarrow> env \<Rightarrow> kgsl_device_iommu_data \<Rightarrow> bool" where
  "bad_unit h e data =
     (length data > KGSL_IOMMU_MAX_DEVS_PER_UNIT h \<or> list_ex (bad_ctxt h e) data)"

text \<open>Platform data with one entry that has no name and the kind 7.\<close>

definition pdata_unnamed :: kgsl_device_platform_data where
  "pdata_unnamed = [[\<lparr>iommu_ctx_name = None, decl_ctx_id = 7\<rparr>]]"

text \<open>Platform data whose second unit names a context the platform does not know.\<close>

definition pdata_unknown :: kgsl_device_platform_data where
  "pdata_unknown = [[\<lparr>iommu_ctx_name = Some ''ctxA'', decl_ctx_id = 0\<rparr>],
                    [\<lparr>iommu_ctx_name = Some ''ctxB'', decl_ctx_id = 0\<rparr>,
                     \<lparr>iommu_ctx_name = Some ''ctxZ'', decl_ctx_id = 1\<rparr>]]"

subsection \<open>Example values\<close>

text \<open>
  A header with the values of the MSM kernel tree, the platform data of the
  specification's scenario (unit 0 with the user context ctxA, unit 1 with the user
  context ctxB and the privileged context ctxC), and two pagetables at 0x100 and 0x200
  with the domains 0xD100 and 0xD200.
\<close>

definition msm_hdr :: hdr where
  "msm_hdr = \<lparr>KGSL_FLAGS_STARTED = 8, KGSL_IOMMU_MAX_UNITS = 2,
     KGSL_IOMMU_MAX_DEVS_PER_UNIT = 2, KGSL_IOMMU_CONTEXT_USER = 0,
     KGSL_IOMMU_CONTEXT_PRIV = 1, KGSL_MMU_ALIGN_MASK = 0xFFFFF000, KGSL_MMU_GLOBAL_PT = 0,
     KGSL_TIMEOUT_DEFAULT = 0xFFFFFFFF, MH_MMU_CONFIG = 0x40, IOMMU_READ = 1, IOMMU_WRITE = 2,
     EINVAL = 22, ENOMEM = 12\<rparr>"

definition env_ok :: env where
  "env_ok = \<lparr>kzalloc = True,
     msm_iommu_get_ctx = (\<lambda>n. if n = ''ctxA'' then 0xA else if n = ''ctxB'' then 0xB
                                else if n = ''ctxC'' then 0xC else 0),
     kgsl_mmu_getpagetable = (\<lambda>n. 0x100),
     kgsl_idle = (\<lambda>t. 0),
     iommu_attach_device = (\<lambda>domain hnd. 0),
     iommu_map_range = (\<lambda>domain a s n p. 0),
     iommu_unmap_range = (\<lambda>domain a n. 0)\<rparr>"

definition env_timeout :: env where
  "env_timeout = env_ok\<lparr>kgsl_idle := (\<lambda>t. - 110)\<rparr>"

definition env_attach_fail :: env where
  "env_attach_fail =
     env_ok\<lparr>iommu_attach_device := (\<lambda>domain hnd. if hnd = 0xC then - 5 else 0)\<rparr>"

definition env_unmap_fail :: env where
  "env_unmap_fail = env_ok\<lparr>iommu_unmap_range := (\<lambda>domain a n. - 22)\<rparr>"

definition pdata0 :: kgsl_device_platform_data where
  "pdata0 = [[\<lparr>iommu_ctx_name = Some ''ctxA'', decl_ctx_id = 0\<rparr>],
             [\<lparr>iommu_ctx_name = Some ''ctxB'', decl_ctx_id = 0\<rparr>,
              \<lparr>iommu_ctx_name = Some ''ctxC'', decl_ctx_id = 1\<rparr>]]"

definition memdesc0 :: kgsl_memdesc where
  "memdesc0 = \<lparr>gpuaddr = 0x1234, memdesc_size = 4096, sg = 0x5000\<rparr>"

definition dev0 :: kgsl_device where
  "dev0 = \<lparr>mmu = \<lparr>flags = 0, hwpagetable = 0, defaultpagetable = 0, priv = None\<rparr>,
            pt_priv = (\<lambda>p. if p = 0x100 then 0xD100 else if p = 0x200 then 0xD200 else 0),
            calls = []\<rparr>"

definition io_attached :: kgsl_iommu where
  "io_attached =
     \<lparr>iommu_units =
        [\<lparr>dev = [\<lparr>device = 0xA, attached = True, ctx_id = 0\<rparr>,
                 \<lparr>device = 0, attached = False, ctx_id = 0\<rparr>], dev_count = 1\<rparr>,
         \<lparr>dev = [\<lparr>device = 0xB, attached = True, ctx_id = 0\<rparr>,
                 \<lparr>device = 0xC, attached = True, ctx_id = 1\<rparr>], dev_count = 2\<rparr>],
      unit_count = 2\<rparr>"

definition io_detached :: kgsl_iommu where
  "io_detached =
     \<lparr>iommu_units =
        [\<lparr>dev = [\<lparr>device = 0xA, attached = False, ctx_id = 0\<rparr>,
                 \<lparr>device = 0, attached = False, ctx_id = 0\<rparr>], dev_count = 1\<rparr>,
         \<lparr>dev = [\<lparr>device = 0xB, attached = False, ctx_id = 0\<rparr>,
                 \<lparr>device = 0xC, attached = False, ctx_id = 1\<rparr>], dev_count = 2\<rparr>],
      unit_count = 2\<rparr>"

text \<open>The device of the scenario after init and start, and after a stop.\<close>

definition dev_started :: kgsl_device where
  "dev_started = dev0\<lparr>mmu := \<lparr>flags = 8, hwpagetable = 0x100, defaultpagetable = 0x100,
                                priv = Some io_attached\<rparr>\<rparr>"

definition dev_stopped :: kgsl_device where
  "dev_stopped = dev0\<lparr>mmu := \<lparr>flags = 0, hwpagetable = 0, defaultpagetable = 0x100,
                                priv = Some io_detached\<rparr>\<rparr>"

text \<open>
  The started device of the scenario with the record of the three attaches that bound its
  contexts to the domain 0xD100.
\<close>

definition dev_running :: kgsl_device where
  "dev_running = dev_started\<lparr>calls :=
     [Iommu_attach_device 0xD100 0xA 0, Log KGSL_MEM_INFO,
      Iommu_attach_device 0xD100 0xB 0, Log KGSL_MEM_INFO,
      Iommu_attach_device 0xD100 0xC 0, Log KGSL_MEM_INFO]\<rparr>"

lemmas ex_defs = msm_hdr_def env_ok_def env_timeout_def env_attach_fail_def env_unmap_fail_def
  memdesc0_def io_attached_def io_detached_def dev_started_def dev_stopped_def dev0_def pdata0_def

section \<open>The attach and detach loops\<close>

declare detach_devs.simps [simp del] attach_devs.simps [simp del]
  detach_units.simps [simp del] attach_units.simps [simp del]

lemma detach_devs_total:
  "wf_unit u \<Longrightarrow> \<exists>u' cs'. detach_devs domain j (u, cs) = Inr (u', cs')"
proof (induction domain j "(u, cs)" arbitrary: u cs rule: detach_devs.induct)
  case (1 domain j u cs)
  show ?case
  proof (cases "j < dev_count u")
    case False
    then show ?thesis by (simp add: detach_devs.simps)
  next
    case True
    with "1.prems" have len: "\<not> length (dev u) \<le> j" by (simp add: wf_unit_def)
    show ?thesis
    proof (cases "attached (dev u ! j)")
      case True
      have "wf_unit (u\<lparr>dev := (dev u)[j := (dev u ! j)\<lparr>attached := False\<rparr>]\<rparr>)"
        using "1.prems" by (simp add: wf_unit_def)
      from "1.hyps"(1)[OF \<open>j < dev_count u\<close> len True this]
      show ?thesis using \<open>j < dev_count u\<close> len True
        by (subst detach_devs.simps) simp
    next
      case False
      from "1.hyps"(2)[OF \<open>j < dev_count u\<close> len False "1.prems"]
      show ?thesis using \<open>j < dev_count u\<close> len False
        by (subst detach_devs.simps) simp
    qed
  qed
qed

lemma detach_devs_post:
  "detach_devs domain j (u, cs) = Inr (u', cs') \<Longrightarrow>
     dev_count u' = dev_count u \<and> length (dev u') = length (dev u) \<and>
     filter is_idle cs' = filter is_idle cs \<and>
     (\<forall>k < length (dev u). device (dev u' ! k) = device (dev u ! k) \<and>
        (attached (dev u' ! k) \<longleftrightarrow> attached (dev u ! k) \<and> \<not> (j \<le> k \<and> k < dev_count u)))"
proof (induction domain j "(u, cs)" arbitrary: u cs rule: detach_devs.induct)
  case (1 domain j u cs)
  show ?case
  proof (cases "j < dev_count u")
    case False
    with "1.prems" show ?thesis by (simp add: detach_devs.simps)
  next
    case True
    with "1.prems" have len: "\<not> length (dev u) \<le> j"
      by (auto simp: detach_devs.simps split: if_splits)
    show ?thesis
    proof (cases "attached (dev u ! j)")
      case att: True
      let ?u1 = "u\<lparr>dev := (dev u)[j := (dev u ! j)\<lparr>attached := False\<rparr>]\<rparr>"
      let ?cs1 = "cs @ [Iommu_detach_device domain (device (dev u ! j)), Log KGSL_MEM_INFO]"
      have "detach_devs domain (j + 1) (?u1, ?cs1) = Inr (u', cs')"
        using "1.prems" True len att by (subst (asm) detach_devs.simps) simp
      from "1.hyps"(1)[OF True len att this]
      show ?thesis using len True
        by (auto simp: nth_list_update)
    next
      case natt: False
      have "detach_devs domain (j + 1) (u, cs) = Inr (u', cs')"
        using "1.prems" True len natt by (subst (asm) detach_devs.simps) simp
      note ih = "1.hyps"(2)[OF True len natt this]
      from ih show ?thesis using natt True len
        by auto (metis not_less_eq_eq le_antisym)
    qed
  qed
qed

lemma attach_devs_total:
  "wf_unit u \<Longrightarrow> \<exists>ret u' cs'. attach_devs e domain j (u, cs) = Inr (ret, u', cs')"
proof (induction e domain j "(u, cs)" arbitrary: u cs rule: attach_devs.induct)
  case (1 e domain j u cs)
  show ?case
  proof (cases "j < dev_count u")
    case False
    then show ?thesis by (simp add: attach_devs.simps)
  next
    case True
    with "1.prems" have len: "\<not> length (dev u) \<le> j" by (simp add: wf_unit_def)
    show ?thesis
    proof (cases "attached (dev u ! j)")
      case True
      from "1.hyps"(2)[OF \<open>j < dev_count u\<close> len _ "1.prems"] True
      show ?thesis using \<open>j < dev_count u\<close> len
        by (subst attach_devs.simps) simp
    next
      case False
      show ?thesis
      proof (cases "iommu_attach_device e domain (device (dev u ! j)) = 0")
        case ok: True
        have "wf_unit (u\<lparr>dev := (dev u)[j := (dev u ! j)\<lparr>attached := True\<rparr>]\<rparr>)"
          using "1.prems" by (simp add: wf_unit_def)
        from "1.hyps"(1)[OF \<open>j < dev_count u\<close> len False refl refl _ this] ok
        show ?thesis using \<open>j < dev_count u\<close> len False
          by (subst attach_devs.simps) (simp add: Let_def)
      next
        case bad: False
        then show ?thesis using \<open>j < dev_count u\<close> len False
          by (subst attach_devs.simps) (simp add: Let_def)
      qed
    qed
  qed
qed

lemma map_device_update:
  "j < length xs \<Longrightarrow> map device (xs[j := (xs ! j)\<lparr>attached := b\<rparr>]) = map device xs"
  by (simp add: map_update list_update_same_conv)

lemma attach_devs_cases:
  assumes "attach_devs e domain j (u, cs) = Inr r"
  obtains
    (finished) "\<not> j < dev_count u" "r = (0, u, cs)"
  | (skip) "j < dev_count u" "j < length (dev u)" "attached (dev u ! j)"
      "attach_devs e domain (Suc j) (u, cs) = Inr r"
  | (failed) "j < dev_count u" "j < length (dev u)" "\<not> attached (dev u ! j)"
      "iommu_attach_device e domain (device (dev u ! j)) \<noteq> 0"
      "r = (iommu_attach_device e domain (device (dev u ! j)), u,
            cs @ [Iommu_attach_device domain (device (dev u ! j))
                    (iommu_attach_device e domain (device (dev u ! j))), Log KGSL_MEM_ERR])"
  | (step) "j < dev_count u" "j < length (dev u)" "\<not> attached (dev u ! j)"
      "iommu_attach_device e domain (device (dev u ! j)) = 0"
      "attach_devs e domain (Suc j)
         (u\<lparr>dev := (dev u)[j := (dev u ! j)\<lparr>attached := True\<rparr>]\<rparr>,
          cs @ [Iommu_attach_device domain (device (dev u ! j)) 0, Log KGSL_MEM_INFO]) = Inr r"
  using assms
  by (subst (asm) attach_devs.simps) (auto simp: Let_def split: if_splits)

lemma attach_devs_shape:
  "attach_devs e domain j (u, cs) = Inr (ret, u', cs') \<Longrightarrow>
     dev_count u' = dev_count u \<and> map device (dev u') = map device (dev u) \<and>
     filter is_idle cs' = filter is_idle cs"
proof (induction "dev_count u - j" arbitrary: j u cs)
  case 0
  from "0.prems" show ?case
    using "0.hyps" by (cases rule: attach_devs_cases) auto
next
  case (Suc n)
  from Suc.prems show ?case
  proof (cases rule: attach_devs_cases)
    case finished
    then show ?thesis by simp
  next
    case skip
    with Suc.hyps(1)[of u "Suc j" cs] Suc.hyps(2) show ?thesis by simp
  next
    case failed
    then show ?thesis by simp
  next
    case step
    with Suc.hyps(1)[OF _ step(5)] Suc.hyps(2) show ?thesis
      by (simp add: map_device_update)
  qed
qed

lemma attach_devs_all:
  "attach_devs e domain j (u, cs) = Inr (0, u', cs') \<Longrightarrow>
     \<forall>k<j. k < dev_count u \<longrightarrow> attached (dev u ! k) \<Longrightarrow>
     \<forall>k<dev_count u. attached (dev u' ! k)"
proof (induction "dev_count u - j" arbitrary: j u cs)
  case 0
  from "0.prems"(1) show ?case
    using "0.hyps" "0.prems"(2) by (cases rule: attach_devs_cases) auto
next
  case (Suc n)
  from Suc.prems(1) show ?case
  proof (cases rule: attach_devs_cases)
    case finished
    then show ?thesis using Suc.hyps(2) by simp
  next
    case skip
    have "\<forall>k<Suc j. k < dev_count u \<longrightarrow> attached (dev u ! k)"
      using Suc.prems(2) skip(3) by (simp add: less_Suc_eq)
    with Suc.hyps(1)[OF _ skip(4)] Suc.hyps(2) show ?thesis by simp
  next
    case failed
    then show ?thesis by simp
  next
    case step
    let ?u1 = "u\<lparr>dev := (dev u)[j := (dev u ! j)\<lparr>attached := True\<rparr>]\<rparr>"
    have "\<forall>k<Suc j. k < dev_count ?u1 \<longrightarrow> attached (dev ?u1 ! k)"
      using Suc.prems(2) step(2) by (simp add: less_Suc_eq nth_list_update)
    with Suc.hyps(1)[OF _ step(5)] Suc.hyps(2) show ?thesis by simp
  qed
qed

lemma attach_devs_err:
  "attach_devs e domain j (u, cs) = Inr (ret, u', cs') \<Longrightarrow> ret \<noteq> 0 \<Longrightarrow>
     \<exists>k<dev_count u. k < length (dev u) \<and>
        ret = iommu_attach_device e domain (device (dev u ! k))"
proof (induction "dev_count u - j" arbitrary: j u cs)
  case 0
  from "0.prems"(1) show ?case
    using "0.hyps" "0.prems"(2) by (cases rule: attach_devs_cases) auto
next
  case (Suc n)
  from Suc.prems(1) show ?case
  proof (cases rule: attach_devs_cases)
    case finished
    then show ?thesis using Suc.prems(2) by simp
  next
    case skip
    with Suc.hyps(1)[OF _ skip(4)] Suc.hyps(2) Suc.prems(2) show ?thesis by simp
  next
    case failed
    then show ?thesis by auto
  next
    case step
    let ?u1 = "u\<lparr>dev := (dev u)[j := (dev u ! j)\<lparr>attached := True\<rparr>]\<rparr>"
    have "n = dev_count ?u1 - Suc j" using Suc.hyps(2) by simp
    from Suc.hyps(1)[OF this step(5) Suc.prems(2)]
    obtain k where k: "k < dev_count u" "k < length (dev u)"
      "ret = iommu_attach_device e domain (device (dev ?u1 ! k))" by auto
    have "device (dev ?u1 ! k) = device (dev u ! k)"
      using k(2) by (cases "k = j") (simp_all add: nth_list_update)
    with k show ?thesis by auto
  qed
qed

lemma attach_devs_env:
  "iommu_attach_device e' = iommu_attach_device e \<Longrightarrow>
     attach_devs e' domain j (u, cs) = attach_devs e domain j (u, cs)"
proof (induction "dev_count u - j" arbitrary: j u cs)
  case 0
  then show ?case
    by (simp add: attach_devs.simps[of e'] attach_devs.simps[of e])
next
  case (Suc n)
  have a: "attach_devs e' domain (Suc j) (u1, cs1) = attach_devs e domain (Suc j) (u1, cs1)"
    if "dev_count u1 = dev_count u" for u1 cs1
    using Suc.hyps(1)[of u1 "Suc j" cs1] Suc.hyps(2) Suc.prems that by simp
  show ?case
    by (subst attach_devs.simps[of e'], subst attach_devs.simps[of e])
       (simp add: a Suc.prems Let_def)
qed

lemma list_all_take_iff:
  "list_all P (take n xs) \<longleftrightarrow> (\<forall>k<n. k < length xs \<longrightarrow> P (xs ! k))"
  by (auto simp: list_all_length)

lemma wf_unit_shape: "unit_shape u' = unit_shape u \<Longrightarrow> wf_unit u' = wf_unit u"
  by (metis wf_unit_def unit_shape_def length_map prod.inject)

lemma wf_iommu_shape:
  assumes "iommu_shape io' = iommu_shape io"
  shows "wf_iommu io' = wf_iommu io"
proof -
  from assms have c: "unit_count io' = unit_count io"
    and m: "map unit_shape (iommu_units io') = map unit_shape (iommu_units io)"
    by (simp_all add: iommu_shape_def)
  from m have l: "length (iommu_units io') = length (iommu_units io)"
    by (metis length_map)
  have "wf_unit (iommu_units io' ! k) = wf_unit (iommu_units io ! k)"
    if "k < length (iommu_units io)" for k
  proof (rule wf_unit_shape)
    show "unit_shape (iommu_units io' ! k) = unit_shape (iommu_units io ! k)"
      using m l that by (metis nth_map)
  qed
  with c l show ?thesis
    by (auto simp: wf_iommu_def list_all_take_iff)
qed

lemma shape_update:
  "i < length (iommu_units io) \<Longrightarrow> unit_shape u' = unit_shape (iommu_units io ! i) \<Longrightarrow>
     iommu_shape (io\<lparr>iommu_units := (iommu_units io)[i := u']\<rparr>) = iommu_shape io"
  by (simp add: iommu_shape_def map_update list_update_same_conv)

lemma detach_devs_shape:
  assumes "detach_devs domain j (u, cs) = Inr (u', cs')"
  shows "unit_shape u' = unit_shape u \<and> filter is_idle cs' = filter is_idle cs"
proof -
  note p = detach_devs_post[OF assms]
  then have "map device (dev u') = map device (dev u)"
    by (auto simp: list_eq_iff_nth_eq)
  with p show ?thesis by (simp add: unit_shape_def)
qed

lemma detach_devs_none:
  assumes "detach_devs domain 0 (u, cs) = Inr (u', cs')"
  shows "none_attached_unit u'"
  using detach_devs_post[OF assms]
  by (auto simp: none_attached_unit_def list_all_take_iff)

lemma attach_devs_shape':
  "attach_devs e domain j (u, cs) = Inr (ret, u', cs') \<Longrightarrow>
     unit_shape u' = unit_shape u \<and> filter is_idle cs' = filter is_idle cs"
  by (drule attach_devs_shape) (simp add: unit_shape_def)

lemma attach_devs_all0:
  assumes "attach_devs e domain 0 (u, cs) = Inr (0, u', cs')"
  shows "all_attached_unit u'"
proof -
  from attach_devs_all[OF assms] have "\<forall>k<dev_count u. attached (dev u' ! k)" by simp
  moreover from attach_devs_shape[OF assms] have "dev_count u' = dev_count u" by simp
  ultimately show ?thesis by (simp add: all_attached_unit_def list_all_take_iff)
qed

lemma detach_units_cases:
  assumes "detach_units domain i (io, cs) = Inr r"
  obtains
    (finished) "\<not> i < unit_count io" "r = (io, cs)"
  | (step) u' cs1 where "i < unit_count io" "i < length (iommu_units io)"
      "detach_devs domain 0 (iommu_units io ! i, cs) = Inr (u', cs1)"
      "detach_units domain (Suc i) (io\<lparr>iommu_units := (iommu_units io)[i := u']\<rparr>, cs1) = Inr r"
  using assms
  by (subst (asm) detach_units.simps) (auto split: if_splits sum.splits)

lemma attach_units_cases:
  assumes "attach_units e domain i (io, cs) = Inr r"
  obtains
    (finished) "\<not> i < unit_count io" "r = (0, io, cs)"
  | (failed) ret u' cs1 where "i < unit_count io" "i < length (iommu_units io)"
      "attach_devs e domain 0 (iommu_units io ! i, cs) = Inr (ret, u', cs1)" "ret \<noteq> 0"
      "r = (ret, io\<lparr>iommu_units := (iommu_units io)[i := u']\<rparr>, cs1)"
  | (step) u' cs1 where "i < unit_count io" "i < length (iommu_units io)"
      "attach_devs e domain 0 (iommu_units io ! i, cs) = Inr (0, u', cs1)"
      "attach_units e domain (Suc i) (io\<lparr>iommu_units := (iommu_units io)[i := u']\<rparr>, cs1) = Inr r"
  using assms
  by (subst (asm) attach_units.simps) (auto split: if_splits sum.splits)

lemma detach_units_shape:
  "detach_units domain i (io, cs) = Inr (io', cs') \<Longrightarrow>
     iommu_shape io' = iommu_shape io \<and> filter is_idle cs' = filter is_idle cs"
proof (induction "unit_count io - i" arbitrary: i io cs)
  case 0
  from "0.prems" show ?case using "0.hyps" by (cases rule: detach_units_cases) auto
next
  case (Suc n)
  from Suc.prems show ?case
  proof (cases rule: detach_units_cases)
    case finished
    then show ?thesis by simp
  next
    case (step u' cs1)
    let ?io1 = "io\<lparr>iommu_units := (iommu_units io)[i := u']\<rparr>"
    have "n = unit_count ?io1 - Suc i" using Suc.hyps(2) by simp
    from Suc.hyps(1)[OF this step(4)] detach_devs_shape[OF step(3)] step(2)
    show ?thesis by (simp add: shape_update)
  qed
qed

lemma detach_units_none:
  "detach_units domain i (io, cs) = Inr (io', cs') \<Longrightarrow>
     \<forall>k<i. k < unit_count io \<longrightarrow> none_attached_unit (iommu_units io ! k) \<Longrightarrow>
     \<forall>k<unit_count io. none_attached_unit (iommu_units io' ! k)"
proof (induction "unit_count io - i" arbitrary: i io cs)
  case 0
  from "0.prems"(1) show ?case using "0.hyps" "0.prems"(2)
    by (cases rule: detach_units_cases) auto
next
  case (Suc n)
  from Suc.prems(1) show ?case
  proof (cases rule: detach_units_cases)
    case finished
    then show ?thesis using Suc.hyps(2) by simp
  next
    case (step u' cs1)
    let ?io1 = "io\<lparr>iommu_units := (iommu_units io)[i := u']\<rparr>"
    have n: "n = unit_count ?io1 - Suc i" using Suc.hyps(2) by simp
    have "\<forall>k<Suc i. k < unit_count ?io1 \<longrightarrow> none_attached_unit (iommu_units ?io1 ! k)"
      using Suc.prems(2) step(2) detach_devs_none[OF step(3)]
      by (simp add: less_Suc_eq nth_list_update)
    from Suc.hyps(1)[OF n step(4) this] show ?thesis by simp
  qed
qed

lemma detach_units_total:
  "wf_iommu io \<Longrightarrow> \<exists>io' cs'. detach_units domain i (io, cs) = Inr (io', cs')"
proof (induction "unit_count io - i" arbitrary: i io cs)
  case 0
  then show ?case by (simp add: detach_units.simps)
next
  case (Suc n)
  from Suc.hyps(2) have i: "i < unit_count io" by simp
  with Suc.prems have len: "i < length (iommu_units io)" and wfu: "wf_unit (iommu_units io ! i)"
    by (auto simp: wf_iommu_def list_all_take_iff)
  from detach_devs_total[OF wfu] obtain u' cs1
    where d: "detach_devs domain 0 (iommu_units io ! i, cs) = Inr (u', cs1)" by blast
  let ?io1 = "io\<lparr>iommu_units := (iommu_units io)[i := u']\<rparr>"
  have "iommu_shape ?io1 = iommu_shape io"
    using len detach_devs_shape[OF d] by (simp add: shape_update)
  from wf_iommu_shape[OF this] Suc.prems have wf1: "wf_iommu ?io1" by simp
  have n: "n = unit_count ?io1 - Suc i" using Suc.hyps(2) by simp
  from Suc.hyps(1)[OF n wf1, of cs1] show ?case
    using i len d by (subst detach_units.simps) simp
qed

lemma attach_units_shape:
  "attach_units e domain i (io, cs) = Inr (ret, io', cs') \<Longrightarrow>
     iommu_shape io' = iommu_shape io \<and> filter is_idle cs' = filter is_idle cs"
proof (induction "unit_count io - i" arbitrary: i io cs)
  case 0
  from "0.prems" show ?case using "0.hyps" by (cases rule: attach_units_cases) auto
next
  case (Suc n)
  from Suc.prems show ?case
  proof (cases rule: attach_units_cases)
    case finished
    then show ?thesis by simp
  next
    case (failed ret1 u' cs1)
    with attach_devs_shape'[OF failed(3)] show ?thesis by (simp add: shape_update)
  next
    case (step u' cs1)
    let ?io1 = "io\<lparr>iommu_units := (iommu_units io)[i := u']\<rparr>"
    have "n = unit_count ?io1 - Suc i" using Suc.hyps(2) by simp
    from Suc.hyps(1)[OF this step(4)] attach_devs_shape'[OF step(3)] step(2)
    show ?thesis by (simp add: shape_update)
  qed
qed

lemma attach_units_all:
  "attach_units e domain i (io, cs) = Inr (0, io', cs') \<Longrightarrow>
     \<forall>k<i. k < unit_count io \<longrightarrow> all_attached_unit (iommu_units io ! k) \<Longrightarrow>
     \<forall>k<unit_count io. all_attached_unit (iommu_units io' ! k)"
proof (induction "unit_count io - i" arbitrary: i io cs)
  case 0
  from "0.prems"(1) show ?case using "0.hyps" "0.prems"(2)
    by (cases rule: attach_units_cases) auto
next
  case (Suc n)
  from Suc.prems(1) show ?case
  proof (cases rule: attach_units_cases)
    case finished
    then show ?thesis using Suc.hyps(2) by simp
  next
    case (failed ret1 u' cs1)
    then show ?thesis by simp
  next
    case (step u' cs1)
    let ?io1 = "io\<lparr>iommu_units := (iommu_units io)[i := u']\<rparr>"
    have n: "n = unit_count ?io1 - Suc i" using Suc.hyps(2) by simp
    have "\<forall>k<Suc i. k < unit_count ?io1 \<longrightarrow> all_attached_unit (iommu_units ?io1 ! k)"
      using Suc.prems(2) step(2) attach_devs_all0[OF step(3)]
      by (simp add: less_Suc_eq nth_list_update)
    from Suc.hyps(1)[OF n step(4) this] show ?thesis by simp
  qed
qed

lemma attach_units_total:
  "wf_iommu io \<Longrightarrow> \<exists>ret io' cs'. attach_units e domain i (io, cs) = Inr (ret, io', cs')"
proof (induction "unit_count io - i" arbitrary: i io cs)
  case 0
  then show ?case by (simp add: attach_units.simps)
next
  case (Suc n)
  from Suc.hyps(2) have i: "i < unit_count io" by simp
  with Suc.prems have len: "i < length (iommu_units io)" and wfu: "wf_unit (iommu_units io ! i)"
    by (auto simp: wf_iommu_def list_all_take_iff)
  from attach_devs_total[OF wfu] obtain ret u' cs1
    where d: "attach_devs e domain 0 (iommu_units io ! i, cs) = Inr (ret, u', cs1)" by blast
  let ?io1 = "io\<lparr>iommu_units := (iommu_units io)[i := u']\<rparr>"
  have "iommu_shape ?io1 = iommu_shape io"
    using len attach_devs_shape'[OF d] by (simp add: shape_update)
  from wf_iommu_shape[OF this] Suc.prems have wf1: "wf_iommu ?io1" by simp
  have n: "n = unit_count ?io1 - Suc i" using Suc.hyps(2) by simp
  from Suc.hyps(1)[OF n wf1, of cs1] show ?case
    using i len d by (subst attach_units.simps) simp
qed

lemma ctx_handles_shape:
  assumes "iommu_shape io' = iommu_shape io"
  shows "ctx_handles io' = ctx_handles io"
proof -
  have "ctx_handles x =
      concat (map (\<lambda>s. take (fst s) (snd s)) (take (fst (iommu_shape x)) (snd (iommu_shape x))))"
    for x
    by (simp add: ctx_handles_def iommu_shape_def unit_shape_def take_map comp_def)
  with assms show ?thesis by simp
qed

lemma ctx_handles_mem:
  assumes "i < unit_count io" "i < length (iommu_units io)"
    "k < dev_count (iommu_units io ! i)" "k < length (dev (iommu_units io ! i))"
  shows "device (dev (iommu_units io ! i) ! k) \<in> set (ctx_handles io)"
proof -
  let ?u = "iommu_units io ! i"
  have "?u \<in> set (take (unit_count io) (iommu_units io))"
    using assms(1,2) by (auto simp: in_set_conv_nth intro!: exI[of _ i])
  moreover have "device (dev ?u ! k) \<in> set (take (dev_count ?u) (map device (dev ?u)))"
    using assms(3,4) by (auto simp: in_set_conv_nth intro!: exI[of _ k])
  ultimately show ?thesis by (auto simp: ctx_handles_def)
qed

lemma attach_units_err:
  "attach_units e domain i (io, cs) = Inr (ret, io', cs') \<Longrightarrow> ret \<noteq> 0 \<Longrightarrow>
     \<exists>hnd \<in> set (ctx_handles io). ret = iommu_attach_device e domain hnd"
proof (induction "unit_count io - i" arbitrary: i io cs)
  case 0
  from "0.prems"(1) show ?case using "0.hyps" "0.prems"(2)
    by (cases rule: attach_units_cases) auto
next
  case (Suc n)
  from Suc.prems(1) show ?case
  proof (cases rule: attach_units_cases)
    case finished
    then show ?thesis using Suc.prems(2) by simp
  next
    case (failed ret1 u' cs1)
    from failed(5) have r: "ret1 = ret" by simp
    from attach_devs_err[OF failed(3,4)] obtain k
      where "k < dev_count (iommu_units io ! i)" "k < length (dev (iommu_units io ! i))"
        "ret1 = iommu_attach_device e domain (device (dev (iommu_units io ! i) ! k))" by blast
    with ctx_handles_mem[OF failed(1,2)] r show ?thesis by blast
  next
    case (step u' cs1)
    let ?io1 = "io\<lparr>iommu_units := (iommu_units io)[i := u']\<rparr>"
    have n: "n = unit_count ?io1 - Suc i" using Suc.hyps(2) by simp
    have "iommu_shape ?io1 = iommu_shape io"
      using step(2) attach_devs_shape'[OF step(3)] by (simp add: shape_update)
    from Suc.hyps(1)[OF n step(4) Suc.prems(2)] ctx_handles_shape[OF this]
    show ?thesis by simp
  qed
qed

lemma attach_units_env:
  "iommu_attach_device e' = iommu_attach_device e \<Longrightarrow>
     attach_units e' domain i (io, cs) = attach_units e domain i (io, cs)"
proof (induction "unit_count io - i" arbitrary: i io cs)
  case 0
  then show ?case
    by (simp add: attach_units.simps[of e'] attach_units.simps[of e])
next
  case (Suc n)
  have a: "attach_units e' domain (Suc i) (io1, cs1) = attach_units e domain (Suc i) (io1, cs1)"
    if "unit_count io1 = unit_count io" for io1 cs1
    using Suc.hyps(1)[of io1 "Suc i" cs1] Suc.hyps(2) Suc.prems that by simp
  show ?case
    by (subst attach_units.simps[of e'], subst attach_units.simps[of e])
       (simp add: a attach_devs_env[OF Suc.prems] split: sum.splits)
qed

lemma kgsl_detach_cases:
  assumes "kgsl_detach_pagetable_iommu_domain d = Inr d'"
  obtains io io' cs' where "hwpagetable (mmu d) \<noteq> 0" "pt_priv d (hwpagetable (mmu d)) \<noteq> 0"
    "priv (mmu d) = Some io"
    "detach_units (pt_priv d (hwpagetable (mmu d))) 0 (io, calls d) = Inr (io', cs')"
    "d' = d\<lparr>mmu := (mmu d)\<lparr>priv := Some io'\<rparr>, calls := cs'\<rparr>"
  using assms unfolding kgsl_detach_pagetable_iommu_domain_def
  by (auto split: if_splits option.splits sum.splits)

lemma kgsl_attach_cases:
  assumes "kgsl_attach_pagetable_iommu_domain e d = Inr (ret, d')"
  obtains io io' cs' where "hwpagetable (mmu d) \<noteq> 0" "pt_priv d (hwpagetable (mmu d)) \<noteq> 0"
    "priv (mmu d) = Some io"
    "attach_units e (pt_priv d (hwpagetable (mmu d))) 0 (io, calls d) = Inr (ret, io', cs')"
    "d' = d\<lparr>mmu := (mmu d)\<lparr>priv := Some io'\<rparr>, calls := cs'\<rparr>"
  using assms unfolding kgsl_attach_pagetable_iommu_domain_def
  by (auto split: if_splits option.splits sum.splits)

lemma kgsl_detach_post:
  assumes "kgsl_detach_pagetable_iommu_domain d = Inr d'"
  shows "same_frame d d' \<and> no_ctx_attached d' \<and> priv (mmu d') \<noteq> None \<and>
     hwpagetable (mmu d) \<noteq> 0 \<and> pt_priv d (hwpagetable (mmu d)) \<noteq> 0"
  using assms
proof (cases rule: kgsl_detach_cases)
  case (1 io io' cs')
  from detach_units_none[OF 1(4)] have "none_attached io'"
    using detach_units_shape[OF 1(4)]
    by (auto simp: none_attached_def list_all_take_iff iommu_shape_def)
  with 1 detach_units_shape[OF 1(4)] show ?thesis
    by (simp add: same_frame_def no_ctx_attached_def)
qed

lemma kgsl_attach_post:
  assumes "kgsl_attach_pagetable_iommu_domain e d = Inr (ret, d')"
  shows "same_frame d d' \<and> (ret = 0 \<longrightarrow> every_ctx_attached d') \<and> priv (mmu d') \<noteq> None \<and>
     hwpagetable (mmu d) \<noteq> 0 \<and> pt_priv d (hwpagetable (mmu d)) \<noteq> 0 \<and>
     (ret \<noteq> 0 \<longrightarrow> (\<exists>io. priv (mmu d) = Some io \<and>
        (\<exists>hnd \<in> set (ctx_handles io).
           ret = iommu_attach_device e (pt_priv d (hwpagetable (mmu d))) hnd)))"
  using assms
proof (cases rule: kgsl_attach_cases)
  case (1 io io' cs')
  have "all_attached io'" if "ret = 0"
    using attach_units_all[of e _ 0 io "calls d" io' cs'] 1(4) that attach_units_shape[OF 1(4)]
    by (auto simp: all_attached_def list_all_take_iff iommu_shape_def)
  moreover have "\<exists>hnd \<in> set (ctx_handles io).
           ret = iommu_attach_device e (pt_priv d (hwpagetable (mmu d))) hnd" if "ret \<noteq> 0"
    using attach_units_err[OF 1(4) that] .
  ultimately show ?thesis using 1 attach_units_shape[OF 1(4)]
    by (simp add: same_frame_def every_ctx_attached_def)
qed

lemma kgsl_detach_total:
  assumes "wf_device d" "hwpagetable (mmu d) \<noteq> 0" "pt_priv d (hwpagetable (mmu d)) \<noteq> 0"
  shows "\<exists>d'. kgsl_detach_pagetable_iommu_domain d = Inr d'"
proof -
  from assms(1) obtain io where io: "priv (mmu d) = Some io" "wf_iommu io"
    by (auto simp: wf_device_def split: option.splits)
  from detach_units_total[OF io(2)] obtain io' cs'
    where "detach_units (pt_priv d (hwpagetable (mmu d))) 0 (io, calls d) = Inr (io', cs')"
    by blast
  with io assms(2,3) show ?thesis
    by (simp add: kgsl_detach_pagetable_iommu_domain_def)
qed

lemma kgsl_attach_total:
  assumes "wf_device d" "hwpagetable (mmu d) \<noteq> 0" "pt_priv d (hwpagetable (mmu d)) \<noteq> 0"
  shows "\<exists>ret d'. kgsl_attach_pagetable_iommu_domain e d = Inr (ret, d')"
proof -
  from assms(1) obtain io where io: "priv (mmu d) = Some io" "wf_iommu io"
    by (auto simp: wf_device_def split: option.splits)
  from attach_units_total[OF io(2)] obtain ret io' cs'
    where "attach_units e (pt_priv d (hwpagetable (mmu d))) 0 (io, calls d) = Inr (ret, io', cs')"
    by blast
  with io assms(2,3) show ?thesis
    by (simp add: kgsl_attach_pagetable_iommu_domain_def)
qed

lemma wf_device_frame:
  assumes "same_frame d d'"
  shows "wf_device d' = wf_device d"
proof (cases "priv (mmu d)")
  case None
  with assms show ?thesis by (simp add: same_frame_def wf_device_def)
next
  case (Some io)
  with assms obtain io' where io': "priv (mmu d') = Some io'" "iommu_shape io' = iommu_shape io"
    by (auto simp: same_frame_def)
  from wf_iommu_shape[OF io'(2)] Some io'(1) show ?thesis by (simp add: wf_device_def)
qed

lemma kgsl_attach_env:
  "iommu_attach_device e' = iommu_attach_device e \<Longrightarrow>
     kgsl_attach_pagetable_iommu_domain e' d = kgsl_attach_pagetable_iommu_domain e d"
  using attach_units_env[of e' e]
  by (simp add: kgsl_attach_pagetable_iommu_domain_def split: option.splits)

lemma started_flags: "flags (mmu d') = flags (mmu d) \<Longrightarrow> started h d' = started h d"
  by (simp add: started_def)

lemma setstate_cases:
  assumes "kgsl_iommu_setstate h e d p c = Inr d1"
  obtains
    (noop) "\<not> started h d \<or> hwpagetable (mmu d) = p" "d1 = d"
  | (to_null) d' where "started h d" "hwpagetable (mmu d) \<noteq> p" "p = 0"
      "kgsl_detach_pagetable_iommu_domain
         (d\<lparr>calls := calls d @ [Kgsl_idle (KGSL_TIMEOUT_DEFAULT h)]\<rparr>) = Inr d'"
      "d1 = d'\<lparr>mmu := (mmu d')\<lparr>hwpagetable := p\<rparr>\<rparr>"
  | (switch) d' ret where "started h d" "hwpagetable (mmu d) \<noteq> p" "p \<noteq> 0"
      "kgsl_detach_pagetable_iommu_domain
         (d\<lparr>calls := calls d @ [Kgsl_idle (KGSL_TIMEOUT_DEFAULT h)]\<rparr>) = Inr d'"
      "kgsl_attach_pagetable_iommu_domain e (d'\<lparr>mmu := (mmu d')\<lparr>hwpagetable := p\<rparr>\<rparr>)
         = Inr (ret, d1)"
  using assms unfolding kgsl_iommu_setstate_def started_def
  by (auto simp: Let_def split: if_splits sum.splits)

lemma setstate_noop:
  "\<not> started h d \<or> hwpagetable (mmu d) = p \<Longrightarrow> kgsl_iommu_setstate h e d p c = Inr d"
  by (auto simp: kgsl_iommu_setstate_def started_def)

lemma setstate_post:
  assumes "kgsl_iommu_setstate h e d p c = Inr d1" "started h d" "hwpagetable (mmu d) \<noteq> p"
  shows "flags (mmu d1) = flags (mmu d) \<and> hwpagetable (mmu d1) = p \<and>
     pt_priv d1 = pt_priv d \<and> defaultpagetable (mmu d1) = defaultpagetable (mmu d) \<and>
     filter is_idle (calls d1) = filter is_idle (calls d) @ [Kgsl_idle (KGSL_TIMEOUT_DEFAULT h)] \<and>
     (p = 0 \<longrightarrow> no_ctx_attached d1)"
  using assms(1)
proof (cases rule: setstate_cases)
  case noop
  with assms(2,3) show ?thesis by simp
next
  case (to_null d')
  from kgsl_detach_post[OF to_null(4)] to_null(3,5) show ?thesis
    by (simp add: same_frame_def no_ctx_attached_def)
next
  case (switch d' ret)
  from kgsl_detach_post[OF switch(4)] kgsl_attach_post[OF switch(5)] switch(3) show ?thesis
    by (simp add: same_frame_def)
qed

lemmas eval_defs = kgsl_iommu_setstate_def kgsl_iommu_start_def kgsl_iommu_stop_def
  kgsl_detach_pagetable_iommu_domain_def kgsl_attach_pagetable_iommu_domain_def
  detach_units.simps detach_devs.simps attach_units.simps attach_devs.simps
  kgsl_iommu_get_current_ptbase_def started_def Let_def

lemma setstate_env:
  "iommu_attach_device e' = iommu_attach_device e \<Longrightarrow>
     kgsl_iommu_setstate h e' d p c = kgsl_iommu_setstate h e d p c"
  using kgsl_attach_env[of e' e]
  by (simp add: kgsl_iommu_setstate_def Let_def split: sum.splits)

lemma setstate_total:
  assumes "wf_device d" "hwpagetable (mmu d) \<noteq> 0" "pt_priv d (hwpagetable (mmu d)) \<noteq> 0"
    "p \<noteq> 0 \<longrightarrow> pt_priv d p \<noteq> 0"
  shows "\<exists>d1. kgsl_iommu_setstate h e d p c = Inr d1"
proof (cases "\<not> started h d \<or> hwpagetable (mmu d) = p")
  case True
  then show ?thesis by (simp add: setstate_noop)
next
  case False
  let ?di = "d\<lparr>calls := calls d @ [Kgsl_idle (KGSL_TIMEOUT_DEFAULT h)]\<rparr>"
  have "wf_device ?di" using assms(1) by (simp add: wf_device_def)
  from kgsl_detach_total[OF this] assms(2,3) obtain d'
    where det: "kgsl_detach_pagetable_iommu_domain ?di = Inr d'" by auto
  note post = kgsl_detach_post[OF det]
  show ?thesis
  proof (cases "p = 0")
    case True
    with False det show ?thesis
      by (simp add: kgsl_iommu_setstate_def started_def)
  next
    case p: False
    let ?d2 = "d'\<lparr>mmu := (mmu d')\<lparr>hwpagetable := p\<rparr>\<rparr>"
    from post have sf: "same_frame ?di d'" by simp
    from wf_device_frame[OF sf] \<open>wf_device ?di\<close> have "wf_device d'" by simp
    then have "wf_device ?d2" by (simp add: wf_device_def)
    moreover have "pt_priv ?d2 (hwpagetable (mmu ?d2)) \<noteq> 0"
      using sf p assms(4) by (simp add: same_frame_def)
    ultimately obtain ret d1
      where "kgsl_attach_pagetable_iommu_domain e ?d2 = Inr (ret, d1)"
      using kgsl_attach_total[of ?d2 e] p by auto
    with False det p show ?thesis
      by (simp add: kgsl_iommu_setstate_def started_def)
  qed
qed

lemma start_unfold:
  assumes "\<not> started h d" "default_pt h e d \<noteq> 0"
  shows "kgsl_iommu_start h e d =
     (case kgsl_attach_pagetable_iommu_domain e (start_pre h e d) of
        Inl f \<Rightarrow> Inl f
      | Inr (status, d3) \<Rightarrow>
          if status = 0
          then Inr (status, d3\<lparr>mmu := (mmu d3)\<lparr>flags := flags (mmu d3) OR KGSL_FLAGS_STARTED h\<rparr>\<rparr>)
          else (case kgsl_detach_pagetable_iommu_domain d3 of
                  Inl f \<Rightarrow> Inl f
                | Inr d4 \<Rightarrow> Inr (status, d4\<lparr>mmu := (mmu d4)\<lparr>hwpagetable := 0\<rparr>\<rparr>)))"
  using assms
  by (auto simp: kgsl_iommu_start_def started_def start_pre_def default_pt_def Let_def
      split: if_splits)

lemma start_nomem:
  assumes "\<not> started h d" "default_pt h e d = 0"
  shows "\<exists>d'. kgsl_iommu_start h e d = Inr (- ENOMEM h, d') \<and> flags (mmu d') = flags (mmu d) \<and>
     priv (mmu d') = priv (mmu d) \<and> pt_priv d' = pt_priv d"
  using assms
  by (auto simp: kgsl_iommu_start_def started_def default_pt_def Let_def)

lemma start_pre_frame:
  "flags (mmu (start_pre h e d)) = flags (mmu d) \<and>
   priv (mmu (start_pre h e d)) = priv (mmu d) \<and>
   pt_priv (start_pre h e d) = pt_priv d \<and>
   hwpagetable (mmu (start_pre h e d)) = default_pt h e d \<and>
   defaultpagetable (mmu (start_pre h e d)) = default_pt h e d \<and>
   wf_device (start_pre h e d) = wf_device d"
  by (simp add: start_pre_def wf_device_def default_pt_def Let_def)

lemma started_OR: "m \<noteq> 0 \<Longrightarrow> ((f :: 32 word) OR m) AND m \<noteq> 0"
  by (simp add: word_ao_absorbs)

lemma started_AND_NOT: "((f :: 32 word) AND NOT m) AND m = 0"
  by (simp add: bit_eq_iff bit_simps)

lemma start_post:
  assumes ns: "\<not> started h d" and dp: "default_pt h e d \<noteq> 0"
    and st: "kgsl_iommu_start h e d = Inr (status, d')"
  shows "pt_priv d' = pt_priv d \<and>
     map_option iommu_shape (priv (mmu d')) = map_option iommu_shape (priv (mmu d)) \<and>
     defaultpagetable (mmu d') = default_pt h e d \<and>
     pt_priv d (default_pt h e d) \<noteq> 0 \<and> priv (mmu d') \<noteq> None \<and>
     (status = 0 \<longrightarrow> every_ctx_attached d' \<and> hwpagetable (mmu d') = default_pt h e d \<and>
        flags (mmu d') = flags (mmu d) OR KGSL_FLAGS_STARTED h) \<and>
     (status \<noteq> 0 \<longrightarrow> no_ctx_attached d' \<and> hwpagetable (mmu d') = 0 \<and>
        flags (mmu d') = flags (mmu d) \<and>
        (\<exists>io. priv (mmu d) = Some io \<and>
           (\<exists>hnd \<in> set (ctx_handles io).
              status = iommu_attach_device e (pt_priv d (default_pt h e d)) hnd)))"
proof -
  note u = st[unfolded start_unfold[OF ns dp]]
  from u obtain d3 where att: "kgsl_attach_pagetable_iommu_domain e (start_pre h e d) = Inr (status, d3)"
    by (auto split: sum.splits if_splits)
  note ap = kgsl_attach_post[OF att] and f = start_pre_frame[of h e d]
  show ?thesis
  proof (cases "status = 0")
    case True
    with u att have "d' = d3\<lparr>mmu := (mmu d3)\<lparr>flags := flags (mmu d3) OR KGSL_FLAGS_STARTED h\<rparr>\<rparr>"
      by simp
    with ap f True show ?thesis
      by (auto simp: same_frame_def every_ctx_attached_def)
  next
    case False
    with u att obtain d4 where det: "kgsl_detach_pagetable_iommu_domain d3 = Inr d4"
      and d': "d' = d4\<lparr>mmu := (mmu d4)\<lparr>hwpagetable := 0\<rparr>\<rparr>"
      by (auto split: sum.splits)
    note dpost = kgsl_detach_post[OF det]
    from ap f dpost False d' show ?thesis
      by (auto simp: same_frame_def no_ctx_attached_def)
  qed
qed

lemma start_total:
  assumes ns: "\<not> started h d" and dp: "default_pt h e d \<noteq> 0"
    and wf: "wf_device d" and pr: "pt_priv d (default_pt h e d) \<noteq> 0"
  shows "\<exists>status d'. kgsl_iommu_start h e d = Inr (status, d')"
proof -
  note f = start_pre_frame[of h e d]
  from kgsl_attach_total[of "start_pre h e d" e] f wf dp pr obtain status d3
    where att: "kgsl_attach_pagetable_iommu_domain e (start_pre h e d) = Inr (status, d3)"
    by auto
  note ap = kgsl_attach_post[OF att]
  show ?thesis
  proof (cases "status = 0")
    case True
    with att show ?thesis by (simp add: start_unfold[OF ns dp])
  next
    case False
    from ap have sf: "same_frame (start_pre h e d) d3" by simp
    from wf_device_frame[OF sf] f wf have "wf_device d3" by simp
    moreover from sf f dp pr have "hwpagetable (mmu d3) \<noteq> 0"
      "pt_priv d3 (hwpagetable (mmu d3)) \<noteq> 0" by (simp_all add: same_frame_def)
    ultimately obtain d4 where "kgsl_detach_pagetable_iommu_domain d3 = Inr d4"
      using kgsl_detach_total[of d3] by auto
    with att False show ?thesis by (simp add: start_unfold[OF ns dp])
  qed
qed

lemma stop_total:
  assumes "started h d" "wf_device d" "hwpagetable (mmu d) \<noteq> 0"
    "pt_priv d (hwpagetable (mmu d)) \<noteq> 0"
  shows "\<exists>d1. kgsl_iommu_stop h d = Inr (0, d1)"
  using kgsl_detach_total[OF assms(2,3,4)] assms(1)
  by (auto simp: kgsl_iommu_stop_def started_def)

lemma stop_post:
  assumes "kgsl_iommu_stop h d = Inr (r, d1)" "started h d"
  shows "r = 0 \<and> no_ctx_attached d1 \<and> \<not> started h d1 \<and> hwpagetable (mmu d1) = 0 \<and>
     pt_priv d1 = pt_priv d \<and> defaultpagetable (mmu d1) = defaultpagetable (mmu d) \<and>
     map_option iommu_shape (priv (mmu d1)) = map_option iommu_shape (priv (mmu d)) \<and>
     hwpagetable (mmu d) \<noteq> 0"
proof -
  from assms obtain d' where det: "kgsl_detach_pagetable_iommu_domain d = Inr d'"
    and d1: "d1 = d'\<lparr>mmu := (mmu d')\<lparr>hwpagetable := 0,
                flags := flags (mmu d') AND NOT (KGSL_FLAGS_STARTED h)\<rparr>\<rparr>" and r: "r = 0"
    by (auto simp: kgsl_iommu_stop_def started_def split: sum.splits)
  from kgsl_detach_post[OF det] d1 r show ?thesis
    by (simp add: same_frame_def no_ctx_attached_def started_def started_AND_NOT)
qed

lemma no_flag_update:
  assumes "no_flag u" "k < length (dev u)" "attached c' = attached (dev u ! k)"
  shows "no_flag (u\<lparr>dev := (dev u)[k := c'], dev_count := n\<rparr>)"
    and "no_flag (u\<lparr>dev := (dev u)[k := c']\<rparr>)"
proof -
  from assms(1,2) have "\<not> attached (dev u ! k)" by (simp add: no_flag_def)
  with assms(1,3) show "no_flag (u\<lparr>dev := (dev u)[k := c'], dev_count := n\<rparr>)"
    and "no_flag (u\<lparr>dev := (dev u)[k := c']\<rparr>)"
    using set_update_subset_insert[of "dev u" k c'] by (auto simp: no_flag_def)
qed

lemma get_ctxs_loop_no_flag:
  "get_ctxs_loop h e data (u, cs) = Inr (ret, u', cs') \<Longrightarrow> no_flag u \<Longrightarrow> no_flag u'"
proof (induction data arbitrary: u cs)
  case Nil
  then show ?case by simp
next
  case (Cons c rest)
  show ?case
  proof (cases "iommu_ctx_name c")
    case None
    with Cons show ?thesis by simp
  next
    case (Some name)
    let ?k = "dev_count u"
    let ?u1 = "u\<lparr>dev := (dev u)[?k := (dev u ! ?k)\<lparr>device := msm_iommu_get_ctx e name\<rparr>]\<rparr>"
    let ?u2 = "?u1\<lparr>dev := (dev ?u1)[dev_count ?u1 :=
                     (dev ?u1 ! dev_count ?u1)\<lparr>ctx_id := decl_ctx_id c\<rparr>],
                   dev_count := dev_count ?u1 + 1\<rparr>"
    from Cons.prems(1) Some have len: "?k < length (dev u)"
      by (auto split: if_splits)
    have n1: "no_flag ?u1" by (rule no_flag_update(2)[OF Cons.prems(2) len]) simp
    have n2: "no_flag ?u2" by (rule no_flag_update(1)[OF n1]) (use len in simp_all)
    from Cons.prems(1) Some len consider
      (fail) "u' = ?u1"
      | (go) cs1 where "get_ctxs_loop h e rest (?u2, cs1) = Inr (ret, u', cs')"
      by (auto simp: Let_def split: if_splits)
    then show ?thesis
    proof cases
      case fail
      with n1 show ?thesis by simp
    next
      case go
      from Cons.IH[OF go n2] show ?thesis .
    qed
  qed
qed

lemma get_iommu_ctxs_no_flag:
  assumes "get_iommu_ctxs h e data unit_id (io, cs) = Inr (ret, io', cs')"
    "\<forall>u \<in> set (iommu_units io). no_flag u"
  shows "\<forall>u \<in> set (iommu_units io'). no_flag u"
proof (cases "length data > KGSL_IOMMU_MAX_DEVS_PER_UNIT h")
  case True
  with assms show ?thesis by (simp add: get_iommu_ctxs_def)
next
  case False
  with assms(1) obtain u' where len: "unit_id < length (iommu_units io)"
    and l: "get_ctxs_loop h e data (iommu_units io ! unit_id, cs) = Inr (ret, u', cs')"
    and io': "io' = io\<lparr>iommu_units := (iommu_units io)[unit_id := u']\<rparr>"
    by (auto simp: get_iommu_ctxs_def split: if_splits sum.splits)
  from get_ctxs_loop_no_flag[OF l] assms(2) len have "no_flag u'" by simp
  with assms(2) io' show ?thesis
    using set_update_subset_insert[of "iommu_units io" unit_id u'] by auto
qed

lemma get_units_loop_no_flag:
  "get_units_loop h e pdata i (io, cs) = Inr (ret, io', cs') \<Longrightarrow>
     \<forall>u \<in> set (iommu_units io). no_flag u \<Longrightarrow> \<forall>u \<in> set (iommu_units io'). no_flag u"
proof (induction pdata arbitrary: i io cs)
  case Nil
  then show ?case by simp
next
  case (Cons data rest)
  from Cons.prems(1) obtain r1 io1 cs1
    where g: "get_iommu_ctxs h e data i (io, cs) = Inr (r1, io1, cs1)"
    by (auto split: sum.splits)
  note n1 = get_iommu_ctxs_no_flag[OF g Cons.prems(2)]
  show ?case
  proof (cases "r1 = 0")
    case True
    with Cons.prems(1) g have "get_units_loop h e rest (i + 1) (io1, cs1) = Inr (ret, io', cs')"
      by simp
    from Cons.IH[OF this n1] show ?thesis .
  next
    case False
    with Cons.prems(1) g have "io' = io1" by simp
    with n1 show ?thesis by simp
  qed
qed

lemma no_flag_none_attached:
  assumes "\<forall>u \<in> set (iommu_units io). no_flag u"
  shows "none_attached io"
proof -
  have "none_attached_unit u" if "no_flag u" for u
    using that by (auto simp: none_attached_unit_def no_flag_def list_all_iff dest: in_set_takeD)
  with assms show ?thesis
    by (auto simp: none_attached_def list_all_iff dest: in_set_takeD)
qed

lemma init_post:
  assumes "kgsl_iommu_init h e pdata d = Inr (status, d')" "no_ctx_attached d"
  shows "no_ctx_attached d' \<and> flags (mmu d') = flags (mmu d)"
proof (cases "kzalloc e")
  case False
  with assms show ?thesis by (auto simp: kgsl_iommu_init_def no_ctx_attached_def)
next
  case True
  with assms(1) obtain io' cs' where
    g: "kgsl_get_iommu_ctxt h e pdata (zeroed_iommu h, calls d @ [Kzalloc]) = Inr (status, io', cs')"
    and d': "priv (mmu d') = (if status \<noteq> 0 then None else Some io')"
      "flags (mmu d') = flags (mmu d)"
    by (auto simp: kgsl_iommu_init_def split: sum.splits if_splits)
  have z: "\<forall>u \<in> set (iommu_units (zeroed_iommu h)). no_flag u"
    by (auto simp: zeroed_iommu_def no_flag_def)
  have "none_attached io'"
  proof (cases "KGSL_IOMMU_MAX_UNITS h < length pdata")
    case True
    with g have "io' = zeroed_iommu h" by (simp add: kgsl_get_iommu_ctxt_def)
    with z show ?thesis by (simp add: no_flag_none_attached)
  next
    case False
    with g obtain io1 where l: "get_units_loop h e pdata 0 (zeroed_iommu h, calls d @ [Kzalloc])
        = Inr (status, io1, cs')" and io': "io' = io1\<lparr>unit_count := length pdata\<rparr>"
      by (auto simp: kgsl_get_iommu_ctxt_def split: sum.splits)
    from get_units_loop_no_flag[OF l z] io' have "\<forall>u \<in> set (iommu_units io'). no_flag u"
      by simp
    then show ?thesis by (rule no_flag_none_attached)
  qed
  with d' show ?thesis by (simp add: no_ctx_attached_def)
qed


lemma no_ctx_attached_priv:
  "priv (mmu d') = priv (mmu d) \<Longrightarrow> no_ctx_attached d' = no_ctx_attached d"
  by (simp add: no_ctx_attached_def)

lemma bound_domain_snoc:
  "bound_domain (cs @ [x]) = bind_call x (bound_domain cs)"
  by (simp add: bound_domain_def)

lemma bound_domain_attach_ok:
  "bound_domain (cs @ [Iommu_attach_device domain hnd 0, Log l]) =
     (bound_domain cs)(hnd := domain)"
  by (simp add: bound_domain_def)

lemma bound_domain_attach_err:
  "ret \<noteq> 0 \<Longrightarrow> bound_domain (cs @ [Iommu_attach_device domain hnd ret, Log l]) = bound_domain cs"
  by (simp add: bound_domain_def)

lemma bound_domain_detach:
  "bound_domain (cs @ [Iommu_detach_device domain hnd, Log l]) = (bound_domain cs)(hnd := 0)"
  by (simp add: bound_domain_def)

lemma detach_devs_cases:
  assumes "detach_devs domain j (u, cs) = Inr r"
  obtains
    (finished) "\<not> j < dev_count u" "r = (u, cs)"
  | (skip) "j < dev_count u" "j < length (dev u)" "\<not> attached (dev u ! j)"
      "detach_devs domain (Suc j) (u, cs) = Inr r"
  | (step) "j < dev_count u" "j < length (dev u)" "attached (dev u ! j)"
      "detach_devs domain (Suc j)
         (u\<lparr>dev := (dev u)[j := (dev u ! j)\<lparr>attached := False\<rparr>]\<rparr>,
          cs @ [Iommu_detach_device domain (device (dev u ! j)), Log KGSL_MEM_INFO]) = Inr r"
  using assms
  by (subst (asm) detach_devs.simps) (auto split: if_splits)

text \<open>An attach binds to the domain only, and sets flags only on what it binds.\<close>

lemma attach_devs_on:
  "attach_devs e domain j (u, cs) = Inr (ret, u', cs') \<Longrightarrow>
     (\<forall>h. bound_domain cs' h = bound_domain cs h \<or> bound_domain cs' h = domain) \<and>
     (\<forall>h. bound_domain cs h = domain \<longrightarrow> bound_domain cs' h = domain) \<and>
     ((\<forall>k<dev_count u. k < length (dev u) \<longrightarrow> attached (dev u ! k) \<longrightarrow>
          bound_domain cs (device (dev u ! k)) = domain) \<longrightarrow>
      (\<forall>k<dev_count u. k < length (dev u) \<longrightarrow> attached (dev u' ! k) \<longrightarrow>
          bound_domain cs' (device (dev u' ! k)) = domain))"
proof (induction "dev_count u - j" arbitrary: j u cs)
  case 0
  from "0.prems" show ?case
    using "0.hyps" by (cases rule: attach_devs_cases) auto
next
  case (Suc n)
  from Suc.prems show ?case
  proof (cases rule: attach_devs_cases)
    case finished
    then show ?thesis by simp
  next
    case skip
    with Suc.hyps(1)[of u "Suc j" cs] Suc.hyps(2) show ?thesis by simp
  next
    case failed
    then show ?thesis by (simp add: bound_domain_attach_err)
  next
    case step
    let ?u1 = "u\<lparr>dev := (dev u)[j := (dev u ! j)\<lparr>attached := True\<rparr>]\<rparr>"
    let ?cs1 = "cs @ [Iommu_attach_device domain (device (dev u ! j)) 0, Log KGSL_MEM_INFO]"
    have n: "n = dev_count ?u1 - Suc j" using Suc.hyps(2) by simp
    note ih = Suc.hyps(1)[OF n step(5)]
    have b1: "bound_domain ?cs1 = (bound_domain cs)(device (dev u ! j) := domain)"
      by (rule bound_domain_attach_ok)
    have 1: "\<forall>h. bound_domain cs' h = bound_domain cs h \<or> bound_domain cs' h = domain"
      using ih b1 by (metis fun_upd_apply)
    have 2: "\<forall>h. bound_domain cs h = domain \<longrightarrow> bound_domain cs' h = domain"
      using ih b1 by (metis fun_upd_apply)
    have 3: "\<forall>k<dev_count u. k < length (dev u) \<longrightarrow> attached (dev u' ! k) \<longrightarrow>
          bound_domain cs' (device (dev u' ! k)) = domain"
      if pre: "\<forall>k<dev_count u. k < length (dev u) \<longrightarrow> attached (dev u ! k) \<longrightarrow>
          bound_domain cs (device (dev u ! k)) = domain"
    proof -
      have "\<forall>k<dev_count ?u1. k < length (dev ?u1) \<longrightarrow> attached (dev ?u1 ! k) \<longrightarrow>
          bound_domain ?cs1 (device (dev ?u1 ! k)) = domain"
        using pre step(2) by (auto simp: b1 nth_list_update)
      with ih show ?thesis by simp
    qed
    from 1 2 3 show ?thesis by blast
  qed
qed

text \<open>A detach binds nothing, and unbinds every context in use whose flag was set.\<close>

lemma detach_devs_off:
  "detach_devs domain j (u, cs) = Inr (u', cs') \<Longrightarrow>
     (\<forall>h. bound_domain cs' h = bound_domain cs h \<or> bound_domain cs' h = 0) \<and>
     (\<forall>h. bound_domain cs h = 0 \<longrightarrow> bound_domain cs' h = 0) \<and>
     (\<forall>k. j \<le> k \<and> k < dev_count u \<and> k < length (dev u) \<and> attached (dev u ! k) \<longrightarrow>
          bound_domain cs' (device (dev u ! k)) = 0)"
proof (induction "dev_count u - j" arbitrary: j u cs)
  case 0
  from "0.prems" show ?case
    using "0.hyps" by (cases rule: detach_devs_cases) auto
next
  case (Suc n)
  from Suc.prems show ?case
  proof (cases rule: detach_devs_cases)
    case finished
    then show ?thesis by auto
  next
    case skip
    have n: "n = dev_count u - Suc j" using Suc.hyps(2) by simp
    note ih = Suc.hyps(1)[OF n skip(4)]
    have "k = j \<or> Suc j \<le> k" if "j \<le> k" for k using that by arith
    with ih skip(3) show ?thesis by blast
  next
    case step
    let ?u1 = "u\<lparr>dev := (dev u)[j := (dev u ! j)\<lparr>attached := False\<rparr>]\<rparr>"
    let ?cs1 = "cs @ [Iommu_detach_device domain (device (dev u ! j)), Log KGSL_MEM_INFO]"
    have n: "n = dev_count ?u1 - Suc j" using Suc.hyps(2) by simp
    note ih = Suc.hyps(1)[OF n step(4)]
    have b1: "bound_domain ?cs1 = (bound_domain cs)(device (dev u ! j) := 0)"
      by (rule bound_domain_detach)
    have 1: "\<forall>h. bound_domain cs' h = bound_domain cs h \<or> bound_domain cs' h = 0"
      using ih b1 by (metis fun_upd_apply)
    have 2: "\<forall>h. bound_domain cs h = 0 \<longrightarrow> bound_domain cs' h = 0"
      using ih b1 by (metis fun_upd_apply)
    have 3: "bound_domain cs' (device (dev u ! k)) = 0"
      if k: "j \<le> k" "k < dev_count u" "k < length (dev u)" "attached (dev u ! k)" for k
    proof (cases "k = j")
      case True
      have "bound_domain ?cs1 (device (dev u ! j)) = 0" by (simp add: b1)
      with ih True show ?thesis by blast
    next
      case False
      with k step(2) have "Suc j \<le> k \<and> k < dev_count ?u1 \<and> k < length (dev ?u1) \<and>
          attached (dev ?u1 ! k)" by (simp add: nth_list_update)
      with ih have "bound_domain cs' (device (dev ?u1 ! k)) = 0" by blast
      with False step(2) show ?thesis by (simp add: nth_list_update)
    qed
    from 1 2 3 show ?thesis by blast
  qed
qed

lemma first_attach_error_append:
  "first_attach_error e domain (xs @ ys) =
     (if first_attach_error e domain xs \<noteq> 0 then first_attach_error e domain xs
      else first_attach_error e domain ys)"
  by (induction xs) auto

lemma first_attach_error_0:
  "first_attach_error e domain hs = 0 \<longleftrightarrow>
     list_all (\<lambda>hnd. iommu_attach_device e domain hnd = 0) hs"
  by (induction hs) auto

lemma first_attach_error_mem:
  "first_attach_error e domain hs \<noteq> 0 \<Longrightarrow>
     \<exists>hnd \<in> set hs. first_attach_error e domain hs = iommu_attach_device e domain hnd"
  by (induction hs) (auto split: if_splits)

lemma drop_take_Cons:
  "j < n \<Longrightarrow> j < length xs \<Longrightarrow> drop j (take n xs) = xs ! j # drop (Suc j) (take n xs)"
  by (metis Cons_nth_drop_Suc length_take min_less_iff_conj nth_take)

lemma attach_devs_first:
  "attach_devs e domain j (u, cs) = Inr (ret, u', cs') \<Longrightarrow>
     \<forall>k. j \<le> k \<and> k < dev_count u \<and> k < length (dev u) \<longrightarrow> \<not> attached (dev u ! k) \<Longrightarrow>
     ret = first_attach_error e domain (map device (drop j (take (dev_count u) (dev u))))"
proof (induction "dev_count u - j" arbitrary: j u cs)
  case 0
  from "0.prems"(1) show ?case
    using "0.hyps" by (cases rule: attach_devs_cases) auto
next
  case (Suc n)
  from Suc.prems(1) show ?case
  proof (cases rule: attach_devs_cases)
    case finished
    then show ?thesis by simp
  next
    case skip
    with Suc.prems(2) show ?thesis by auto
  next
    case failed
    then show ?thesis by (simp add: drop_take_Cons)
  next
    case step
    let ?u1 = "u\<lparr>dev := (dev u)[j := (dev u ! j)\<lparr>attached := True\<rparr>]\<rparr>"
    have n: "n = dev_count ?u1 - Suc j" using Suc.hyps(2) by simp
    have pre: "\<forall>k. Suc j \<le> k \<and> k < dev_count ?u1 \<and> k < length (dev ?u1) \<longrightarrow>
        \<not> attached (dev ?u1 ! k)"
      using Suc.prems(2) by (auto simp: nth_list_update)
    have d: "drop (Suc j) (take (dev_count ?u1) (dev ?u1)) = drop (Suc j) (take (dev_count u) (dev u))"
      by (simp add: take_update_swap drop_update_cancel)
    from Suc.hyps(1)[OF n step(5) pre] d step(1,2,4) show ?thesis
      by (simp add: drop_take_Cons)
  qed
qed

lemma attach_devs_mono_flag:
  "attach_devs e domain j (u, cs) = Inr (ret, u', cs') \<Longrightarrow>
     \<forall>k<length (dev u). attached (dev u ! k) \<longrightarrow> attached (dev u' ! k)"
proof (induction "dev_count u - j" arbitrary: j u cs)
  case 0
  from "0.prems" show ?case
    using "0.hyps" by (cases rule: attach_devs_cases) auto
next
  case (Suc n)
  from Suc.prems show ?case
  proof (cases rule: attach_devs_cases)
    case finished
    then show ?thesis by simp
  next
    case skip
    with Suc.hyps(1)[of u "Suc j" cs] Suc.hyps(2) show ?thesis by simp
  next
    case failed
    then show ?thesis by simp
  next
    case step
    let ?u1 = "u\<lparr>dev := (dev u)[j := (dev u ! j)\<lparr>attached := True\<rparr>]\<rparr>"
    have n: "n = dev_count ?u1 - Suc j" using Suc.hyps(2) by simp
    from Suc.hyps(1)[OF n step(5)] step(2) show ?thesis
      by (auto simp: nth_list_update split: if_splits)
  qed
qed

text \<open>An attach changes the binding only of contexts in use that it leaves flagged.\<close>

lemma attach_devs_changed:
  "attach_devs e domain j (u, cs) = Inr (ret, u', cs') \<Longrightarrow>
     \<forall>h. bound_domain cs' h \<noteq> bound_domain cs h \<longrightarrow>
       (\<exists>k<dev_count u. k < length (dev u) \<and> device (dev u ! k) = h \<and> attached (dev u' ! k))"
proof (induction "dev_count u - j" arbitrary: j u cs)
  case 0
  from "0.prems" show ?case
    using "0.hyps" by (cases rule: attach_devs_cases) auto
next
  case (Suc n)
  from Suc.prems show ?case
  proof (cases rule: attach_devs_cases)
    case finished
    then show ?thesis by simp
  next
    case skip
    with Suc.hyps(1)[of u "Suc j" cs] Suc.hyps(2) show ?thesis by simp
  next
    case failed
    then show ?thesis by (simp add: bound_domain_attach_err)
  next
    case step
    let ?u1 = "u\<lparr>dev := (dev u)[j := (dev u ! j)\<lparr>attached := True\<rparr>]\<rparr>"
    let ?cs1 = "cs @ [Iommu_attach_device domain (device (dev u ! j)) 0, Log KGSL_MEM_INFO]"
    have n: "n = dev_count ?u1 - Suc j" using Suc.hyps(2) by simp
    note ih = Suc.hyps(1)[OF n step(5)]
    have b1: "bound_domain ?cs1 = (bound_domain cs)(device (dev u ! j) := domain)"
      by (rule bound_domain_attach_ok)
    have j': "attached (dev u' ! j)"
      using attach_devs_mono_flag[OF step(5)] step(2) by simp
    show ?thesis
    proof (intro allI impI)
      fix h assume ch: "bound_domain cs' h \<noteq> bound_domain cs h"
      show "\<exists>k<dev_count u. k < length (dev u) \<and> device (dev u ! k) = h \<and> attached (dev u' ! k)"
      proof (cases "bound_domain cs' h = bound_domain ?cs1 h")
        case True
        with ch b1 have "h = device (dev u ! j)" by (auto split: if_splits)
        with step(1,2) j' show ?thesis by blast
      next
        case False
        with ih obtain k where k: "k < dev_count u" "k < length (dev u)"
          "device (dev ?u1 ! k) = h" "attached (dev u' ! k)" by auto
        have "device (dev ?u1 ! k) = device (dev u ! k)"
          using k(2) by (cases "k = j") (simp_all add: nth_list_update)
        with k show ?thesis by auto
      qed
    qed
  qed
qed

lemma flagged_on_unit_iff:
  "flagged_on_unit cs domain u \<longleftrightarrow>
     (\<forall>k<dev_count u. k < length (dev u) \<longrightarrow> attached (dev u ! k) \<longrightarrow>
        bound_domain cs (device (dev u ! k)) = domain)"
  by (simp add: flagged_on_unit_def list_all_take_iff)

lemma flagged_on_unit_mono:
  "\<forall>h. bound_domain cs h = domain \<longrightarrow> bound_domain cs' h = domain \<Longrightarrow>
     flagged_on_unit cs domain u \<Longrightarrow> flagged_on_unit cs' domain u"
  by (simp add: flagged_on_unit_iff)

lemma attach_devs_flagged:
  assumes "attach_devs e domain j (u, cs) = Inr (ret, u', cs')" "flagged_on_unit cs domain u"
  shows "flagged_on_unit cs' domain u'"
proof -
  from attach_devs_shape[OF assms(1)] have "dev_count u' = dev_count u"
    "length (dev u') = length (dev u)" by (simp_all, metis length_map)
  with attach_devs_on[OF assms(1)] assms(2) show ?thesis
    by (simp add: flagged_on_unit_iff)
qed

lemma attach_units_on:
  "attach_units e domain i (io, cs) = Inr (ret, io', cs') \<Longrightarrow>
     (\<forall>h. bound_domain cs' h = bound_domain cs h \<or> bound_domain cs' h = domain) \<and>
     (\<forall>h. bound_domain cs h = domain \<longrightarrow> bound_domain cs' h = domain) \<and>
     ((\<forall>k<unit_count io. k < length (iommu_units io) \<longrightarrow>
          flagged_on_unit cs domain (iommu_units io ! k)) \<longrightarrow>
      (\<forall>k<unit_count io. k < length (iommu_units io) \<longrightarrow>
          flagged_on_unit cs' domain (iommu_units io' ! k)))"
proof (induction "unit_count io - i" arbitrary: i io cs)
  case 0
  from "0.prems" show ?case using "0.hyps" by (cases rule: attach_units_cases) auto
next
  case (Suc n)
  have upd: "\<forall>k<unit_count io. k < length (iommu_units io) \<longrightarrow>
          flagged_on_unit cs1 domain ((iommu_units io)[i := u'] ! k)"
    if a: "attach_devs e domain 0 (iommu_units io ! i, cs) = Inr (r, u', cs1)"
      and len: "i < length (iommu_units io)"
      and pre: "\<forall>k<unit_count io. k < length (iommu_units io) \<longrightarrow>
          flagged_on_unit cs domain (iommu_units io ! k)" for r u' cs1
  proof (intro allI impI)
    fix k assume k: "k < unit_count io" "k < length (iommu_units io)"
    show "flagged_on_unit cs1 domain ((iommu_units io)[i := u'] ! k)"
    proof (cases "k = i")
      case True
      with attach_devs_flagged[OF a] pre k len show ?thesis by simp
    next
      case False
      with flagged_on_unit_mono[of cs domain cs1 "iommu_units io ! k"] attach_devs_on[OF a] pre k
      show ?thesis by simp
    qed
  qed
  from Suc.prems show ?case
  proof (cases rule: attach_units_cases)
    case finished
    then show ?thesis by simp
  next
    case (failed r u' cs1)
    from attach_devs_on[OF failed(3)] upd[OF failed(3,2)] failed(5) show ?thesis by simp
  next
    case (step u' cs1)
    let ?io1 = "io\<lparr>iommu_units := (iommu_units io)[i := u']\<rparr>"
    have n: "n = unit_count ?io1 - Suc i" using Suc.hyps(2) by simp
    note ih = Suc.hyps(1)[OF n step(4)] and a = attach_devs_on[OF step(3)]
    have 1: "\<forall>h. bound_domain cs' h = bound_domain cs h \<or> bound_domain cs' h = domain"
      using ih a by metis
    have 2: "\<forall>h. bound_domain cs h = domain \<longrightarrow> bound_domain cs' h = domain"
      using ih a by metis
    have 3: "\<forall>k<unit_count io. k < length (iommu_units io) \<longrightarrow>
          flagged_on_unit cs' domain (iommu_units io' ! k)"
      if pre: "\<forall>k<unit_count io. k < length (iommu_units io) \<longrightarrow>
          flagged_on_unit cs domain (iommu_units io ! k)"
      using ih upd[OF step(3,2) pre] by simp
    from 1 2 3 show ?thesis by blast
  qed
qed

lemma detach_units_off:
  "detach_units domain i (io, cs) = Inr (io', cs') \<Longrightarrow>
     (\<forall>h. bound_domain cs' h = bound_domain cs h \<or> bound_domain cs' h = 0) \<and>
     (\<forall>h. bound_domain cs h = 0 \<longrightarrow> bound_domain cs' h = 0) \<and>
     (\<forall>m k. i \<le> m \<and> m < unit_count io \<and> m < length (iommu_units io) \<and>
         k < dev_count (iommu_units io ! m) \<and> k < length (dev (iommu_units io ! m)) \<and>
         attached (dev (iommu_units io ! m) ! k) \<longrightarrow>
         bound_domain cs' (device (dev (iommu_units io ! m) ! k)) = 0)"
proof (induction "unit_count io - i" arbitrary: i io cs)
  case 0
  from "0.prems" show ?case using "0.hyps" by (cases rule: detach_units_cases) auto
next
  case (Suc n)
  from Suc.prems show ?case
  proof (cases rule: detach_units_cases)
    case finished
    then show ?thesis by auto
  next
    case (step u' cs1)
    let ?io1 = "io\<lparr>iommu_units := (iommu_units io)[i := u']\<rparr>"
    have n: "n = unit_count ?io1 - Suc i" using Suc.hyps(2) by simp
    note ih = Suc.hyps(1)[OF n step(4)] and a = detach_devs_off[OF step(3)]
    have 1: "\<forall>h. bound_domain cs' h = bound_domain cs h \<or> bound_domain cs' h = 0"
      using ih a by metis
    have 2: "\<forall>h. bound_domain cs h = 0 \<longrightarrow> bound_domain cs' h = 0"
      using ih a by metis
    have 3: "bound_domain cs' (device (dev (iommu_units io ! m) ! k)) = 0"
      if mk: "i \<le> m" "m < unit_count io" "m < length (iommu_units io)"
        "k < dev_count (iommu_units io ! m)" "k < length (dev (iommu_units io ! m))"
        "attached (dev (iommu_units io ! m) ! k)" for m k
    proof (cases "m = i")
      case True
      with a mk have "bound_domain cs1 (device (dev (iommu_units io ! m) ! k)) = 0" by simp
      with ih show ?thesis by blast
    next
      case False
      with mk have "Suc i \<le> m \<and> m < unit_count ?io1 \<and> m < length (iommu_units ?io1) \<and>
         k < dev_count (iommu_units ?io1 ! m) \<and> k < length (dev (iommu_units ?io1 ! m)) \<and>
         attached (dev (iommu_units ?io1 ! m) ! k)" by simp
      with ih have "bound_domain cs' (device (dev (iommu_units ?io1 ! m) ! k)) = 0" by blast
      with False show ?thesis by simp
    qed
    from 1 2 3 show ?thesis by blast
  qed
qed

lemma attach_units_frame:
  "attach_units e domain i (io, cs) = Inr (ret, io', cs') \<Longrightarrow>
     \<forall>k<i. iommu_units io' ! k = iommu_units io ! k"
proof (induction "unit_count io - i" arbitrary: i io cs)
  case 0
  from "0.prems" show ?case using "0.hyps" by (cases rule: attach_units_cases) auto
next
  case (Suc n)
  from Suc.prems show ?case
  proof (cases rule: attach_units_cases)
    case finished
    then show ?thesis by simp
  next
    case (failed r u' cs1)
    then show ?thesis by simp
  next
    case (step u' cs1)
    let ?io1 = "io\<lparr>iommu_units := (iommu_units io)[i := u']\<rparr>"
    have n: "n = unit_count ?io1 - Suc i" using Suc.hyps(2) by simp
    from Suc.hyps(1)[OF n step(4)] show ?thesis by simp
  qed
qed

lemma attach_units_changed:
  "attach_units e domain i (io, cs) = Inr (ret, io', cs') \<Longrightarrow>
     \<forall>h. bound_domain cs' h \<noteq> bound_domain cs h \<longrightarrow>
       (\<exists>m k. m < unit_count io \<and> m < length (iommu_units io) \<and>
          k < dev_count (iommu_units io ! m) \<and> k < length (dev (iommu_units io ! m)) \<and>
          device (dev (iommu_units io ! m) ! k) = h \<and> attached (dev (iommu_units io' ! m) ! k))"
proof (induction "unit_count io - i" arbitrary: i io cs)
  case 0
  from "0.prems" show ?case using "0.hyps" by (cases rule: attach_units_cases) auto
next
  case (Suc n)
  from Suc.prems show ?case
  proof (cases rule: attach_units_cases)
    case finished
    then show ?thesis by simp
  next
    case (failed r u' cs1)
    show ?thesis
    proof (intro allI impI)
      fix h assume "bound_domain cs' h \<noteq> bound_domain cs h"
      with failed(5) have "bound_domain cs1 h \<noteq> bound_domain cs h" by simp
      with attach_devs_changed[OF failed(3)] obtain k where
        "k < dev_count (iommu_units io ! i)" "k < length (dev (iommu_units io ! i))"
        "device (dev (iommu_units io ! i) ! k) = h" "attached (dev u' ! k)" by blast
      with failed(1,2,5) show "\<exists>m k. m < unit_count io \<and> m < length (iommu_units io) \<and>
          k < dev_count (iommu_units io ! m) \<and> k < length (dev (iommu_units io ! m)) \<and>
          device (dev (iommu_units io ! m) ! k) = h \<and> attached (dev (iommu_units io' ! m) ! k)"
        by (intro exI[of _ i] exI[of _ k]) simp
    qed
  next
    case (step u' cs1)
    let ?io1 = "io\<lparr>iommu_units := (iommu_units io)[i := u']\<rparr>"
    have n: "n = unit_count ?io1 - Suc i" using Suc.hyps(2) by simp
    note ih = Suc.hyps(1)[OF n step(4)]
    from attach_units_frame[OF step(4)] step(2) have fi: "iommu_units io' ! i = u'" by simp
    show ?thesis
    proof (intro allI impI)
      fix h assume ch: "bound_domain cs' h \<noteq> bound_domain cs h"
      show "\<exists>m k. m < unit_count io \<and> m < length (iommu_units io) \<and>
          k < dev_count (iommu_units io ! m) \<and> k < length (dev (iommu_units io ! m)) \<and>
          device (dev (iommu_units io ! m) ! k) = h \<and> attached (dev (iommu_units io' ! m) ! k)"
      proof (cases "bound_domain cs1 h = bound_domain cs h")
        case False
        with attach_devs_changed[OF step(3)] obtain k where
          "k < dev_count (iommu_units io ! i)" "k < length (dev (iommu_units io ! i))"
          "device (dev (iommu_units io ! i) ! k) = h" "attached (dev u' ! k)" by blast
        with step(1,2) fi show ?thesis by (intro exI[of _ i] exI[of _ k]) simp
      next
        case True
        with ch have ne: "bound_domain cs' h \<noteq> bound_domain cs1 h" by simp
        from ih have "\<forall>h. bound_domain cs' h \<noteq> bound_domain cs1 h \<longrightarrow>
            (\<exists>m k. m < unit_count io \<and> m < length (iommu_units io) \<and>
               k < dev_count ((iommu_units io)[i := u'] ! m) \<and>
               k < length (dev ((iommu_units io)[i := u'] ! m)) \<and>
               device (dev ((iommu_units io)[i := u'] ! m) ! k) = h \<and>
               attached (dev (iommu_units io' ! m) ! k))" by simp
        with ne obtain m k where mk: "m < unit_count io" "m < length (iommu_units io)"
          "k < dev_count ((iommu_units io)[i := u'] ! m)"
          "k < length (dev ((iommu_units io)[i := u'] ! m))"
          "device (dev ((iommu_units io)[i := u'] ! m) ! k) = h"
          "attached (dev (iommu_units io' ! m) ! k)"
          by blast
        show ?thesis
        proof (cases "m = i")
          case False
          with mk show ?thesis by (intro exI[of _ m] exI[of _ k]) simp
        next
          case mi: True
          from attach_devs_shape[OF step(3)] have dc: "dev_count u' = dev_count (iommu_units io ! i)"
            and me: "map device (dev u') = map device (dev (iommu_units io ! i))" by simp_all
          from me have le: "length (dev u') = length (dev (iommu_units io ! i))"
            by (metis length_map)
          from mk(3,4,5) mi step(2) have k': "k < dev_count u'" "k < length (dev u')"
            "device (dev u' ! k) = h" by simp_all
          have "device (dev u' ! k) = map device (dev u') ! k" using k'(2) by simp
          also have "\<dots> = map device (dev (iommu_units io ! i)) ! k" by (simp only: me)
          also have "\<dots> = device (dev (iommu_units io ! i) ! k)" using k'(2) le by simp
          finally have "device (dev (iommu_units io ! i) ! k) = h" using k'(3) by simp
          with k' dc le mk(1,2,6) mi show ?thesis
            by (intro exI[of _ i] exI[of _ k]) simp
        qed
      qed
    qed
  qed
qed

lemma attach_units_first:
  "attach_units e domain i (io, cs) = Inr (ret, io', cs') \<Longrightarrow>
     \<forall>m k. i \<le> m \<and> m < unit_count io \<and> m < length (iommu_units io) \<and>
        k < dev_count (iommu_units io ! m) \<and> k < length (dev (iommu_units io ! m)) \<longrightarrow>
        \<not> attached (dev (iommu_units io ! m) ! k) \<Longrightarrow>
     ret = first_attach_error e domain
       (concat (map (\<lambda>u. take (dev_count u) (map device (dev u)))
          (drop i (take (unit_count io) (iommu_units io)))))"
proof (induction "unit_count io - i" arbitrary: i io cs)
  case 0
  from "0.prems"(1) show ?case using "0.hyps" by (cases rule: attach_units_cases) auto
next
  case (Suc n)
  have unit: "r = first_attach_error e domain
      (take (dev_count (iommu_units io ! i)) (map device (dev (iommu_units io ! i))))"
    if a: "attach_devs e domain 0 (iommu_units io ! i, cs) = Inr (r, u', cs1)"
      and i: "i < unit_count io" "i < length (iommu_units io)" for r u' cs1
  proof -
    have "\<forall>k. 0 \<le> k \<and> k < dev_count (iommu_units io ! i) \<and>
        k < length (dev (iommu_units io ! i)) \<longrightarrow> \<not> attached (dev (iommu_units io ! i) ! k)"
      using Suc.prems(2) i by simp
    from attach_devs_first[OF a this] show ?thesis by (simp add: take_map)
  qed
  from Suc.prems(1) show ?case
  proof (cases rule: attach_units_cases)
    case finished
    then show ?thesis by simp
  next
    case (failed r u' cs1)
    from unit[OF failed(3,1,2)] failed(1,2,4,5) show ?thesis
      by (simp add: drop_take_Cons first_attach_error_append)
  next
    case (step u' cs1)
    let ?io1 = "io\<lparr>iommu_units := (iommu_units io)[i := u']\<rparr>"
    have n: "n = unit_count ?io1 - Suc i" using Suc.hyps(2) by simp
    have pre: "\<forall>m k. Suc i \<le> m \<and> m < unit_count ?io1 \<and> m < length (iommu_units ?io1) \<and>
        k < dev_count (iommu_units ?io1 ! m) \<and> k < length (dev (iommu_units ?io1 ! m)) \<longrightarrow>
        \<not> attached (dev (iommu_units ?io1 ! m) ! k)"
      using Suc.prems(2) by auto
    have d: "drop (Suc i) (take (unit_count ?io1) (iommu_units ?io1)) =
        drop (Suc i) (take (unit_count io) (iommu_units io))"
      by (simp add: take_update_swap drop_update_cancel)
    from Suc.hyps(1)[OF n step(4) pre] d unit[OF step(3,1,2)] step(1,2) show ?thesis
      by (simp add: drop_take_Cons first_attach_error_append)
  qed
qed

lemma shape_nth:
  assumes "iommu_shape io' = iommu_shape io"
  shows "unit_count io' = unit_count io \<and> length (iommu_units io') = length (iommu_units io) \<and>
     (\<forall>m<length (iommu_units io).
        dev_count (iommu_units io' ! m) = dev_count (iommu_units io ! m) \<and>
        length (dev (iommu_units io' ! m)) = length (dev (iommu_units io ! m)) \<and>
        (\<forall>k<length (dev (iommu_units io ! m)).
           device (dev (iommu_units io' ! m) ! k) = device (dev (iommu_units io ! m) ! k)))"
proof -
  from assms have c: "unit_count io' = unit_count io"
    and m: "map unit_shape (iommu_units io') = map unit_shape (iommu_units io)"
    by (simp_all add: iommu_shape_def)
  from m have l: "length (iommu_units io') = length (iommu_units io)" by (metis length_map)
  have u: "dev_count (iommu_units io' ! k) = dev_count (iommu_units io ! k) \<and>
      map device (dev (iommu_units io' ! k)) = map device (dev (iommu_units io ! k))"
    if "k < length (iommu_units io)" for k
  proof -
    have "unit_shape (iommu_units io' ! k) = unit_shape (iommu_units io ! k)"
      using m l that by (metis nth_map)
    then show ?thesis by (simp add: unit_shape_def)
  qed
  have "length (dev (iommu_units io' ! k)) = length (dev (iommu_units io ! k)) \<and>
      (\<forall>j<length (dev (iommu_units io ! k)).
         device (dev (iommu_units io' ! k) ! j) = device (dev (iommu_units io ! k) ! j))"
    if "k < length (iommu_units io)" for k
  proof -
    from u[OF that] have me: "map device (dev (iommu_units io' ! k)) =
        map device (dev (iommu_units io ! k))" by simp
    then have le: "length (dev (iommu_units io' ! k)) = length (dev (iommu_units io ! k))"
      by (metis length_map)
    have "device (dev (iommu_units io' ! k) ! j) = device (dev (iommu_units io ! k) ! j)"
      if "j < length (dev (iommu_units io ! k))" for j
      using me le that by (metis nth_map)
    with le show ?thesis by simp
  qed
  with c l u show ?thesis by simp
qed

lemma ctx_handles_memD:
  assumes "h \<in> set (ctx_handles io)"
  shows "\<exists>m k. m < unit_count io \<and> m < length (iommu_units io) \<and>
     k < dev_count (iommu_units io ! m) \<and> k < length (dev (iommu_units io ! m)) \<and>
     h = device (dev (iommu_units io ! m) ! k)"
proof -
  from assms obtain u where u: "u \<in> set (take (unit_count io) (iommu_units io))"
    and h: "h \<in> set (take (dev_count u) (map device (dev u)))"
    by (auto simp: ctx_handles_def)
  from u obtain m where m: "m < unit_count io" "m < length (iommu_units io)"
    "u = iommu_units io ! m"
    by (auto simp: in_set_conv_nth)
  from h obtain k where k: "k < dev_count u" "k < length (dev u)" "h = device (dev u ! k)"
    by (auto simp: in_set_conv_nth)
  with m show ?thesis by blast
qed

lemma all_on_unitI:
  "all_attached_unit u \<Longrightarrow> flagged_on_unit cs domain u \<Longrightarrow> all_on_unit cs domain u"
  by (auto simp: all_attached_unit_def flagged_on_unit_def all_on_unit_def list_all_iff)

lemma none_flagged_on_unit: "none_attached_unit u \<Longrightarrow> flagged_on_unit cs domain u"
  by (auto simp: none_attached_unit_def flagged_on_unit_def list_all_iff)

lemma kgsl_attach_all_on:
  assumes a: "kgsl_attach_pagetable_iommu_domain e d = Inr (0, d')" and n: "no_ctx_attached d"
  shows "every_ctx_on d'"
  using a
proof (cases rule: kgsl_attach_cases)
  case (1 io io' cs')
  let ?dom = "pt_priv d (hwpagetable (mmu d))"
  note sh = shape_nth[OF conjunct1[OF attach_units_shape[OF 1(4)]]]
  from n 1(3) have "\<forall>k<unit_count io. k < length (iommu_units io) \<longrightarrow>
      flagged_on_unit (calls d) ?dom (iommu_units io ! k)"
    by (simp add: no_ctx_attached_def none_attached_def list_all_take_iff none_flagged_on_unit)
  with attach_units_on[OF 1(4)] have f: "\<forall>k<unit_count io. k < length (iommu_units io) \<longrightarrow>
      flagged_on_unit cs' ?dom (iommu_units io' ! k)" by blast
  from attach_units_all[OF 1(4)] have "\<forall>k<unit_count io. all_attached_unit (iommu_units io' ! k)"
    by simp
  with f sh have "all_on cs' ?dom io'"
    by (simp add: all_on_def list_all_take_iff all_on_unitI)
  with 1(5) show ?thesis by (simp add: every_ctx_on_def)
qed

lemma kgsl_attach_first:
  assumes a: "kgsl_attach_pagetable_iommu_domain e d = Inr (ret, d')"
    and n: "no_ctx_attached d" and io: "priv (mmu d) = Some io"
  shows "ret = first_attach_error e (pt_priv d (hwpagetable (mmu d))) (ctx_handles io)"
  using a
proof (cases rule: kgsl_attach_cases)
  case (1 io1 io' cs')
  with io have [simp]: "io1 = io" by simp
  from n io have "\<forall>m k. 0 \<le> m \<and> m < unit_count io \<and> m < length (iommu_units io) \<and>
        k < dev_count (iommu_units io ! m) \<and> k < length (dev (iommu_units io ! m)) \<longrightarrow>
        \<not> attached (dev (iommu_units io ! m) ! k)"
    by (simp add: no_ctx_attached_def none_attached_def none_attached_unit_def list_all_take_iff)
  from attach_units_first[OF 1(4)[simplified] this] show ?thesis
    by (simp add: ctx_handles_def)
qed

text \<open>
  An attach followed by a detach leaves every context bound as before the attach, or
  bound to no domain.
\<close>

lemma attach_detach_unbound:
  assumes a: "kgsl_attach_pagetable_iommu_domain e d = Inr (ret, d3)"
    and t: "kgsl_detach_pagetable_iommu_domain d3 = Inr d4"
  shows "bound_domain (calls d4) hnd = 0 \<or> bound_domain (calls d4) hnd = bound_domain (calls d) hnd"
  using a
proof (cases rule: kgsl_attach_cases)
  case a1: (1 io io3 cs3)
  from t show ?thesis
  proof (cases rule: kgsl_detach_cases)
    case d1: (1 io3' io4 cs4)
    from a1(5) d1(3) have [simp]: "io3' = io3" and c3: "calls d3 = cs3" by simp_all
    note off = detach_units_off[OF d1(4)[simplified], unfolded c3]
    note sh = shape_nth[OF conjunct1[OF attach_units_shape[OF a1(4)]]]
    show ?thesis
    proof (cases "bound_domain cs3 hnd = bound_domain (calls d) hnd")
      case True
      from d1(5) have c4: "calls d4 = cs4" by simp
      from off c3 have "bound_domain cs4 hnd = bound_domain cs3 hnd \<or> bound_domain cs4 hnd = 0"
        by blast
      with True c4 show ?thesis by auto
    next
      case False
      with attach_units_changed[OF a1(4)] obtain m k where mk: "m < unit_count io"
        "m < length (iommu_units io)" "k < dev_count (iommu_units io ! m)"
        "k < length (dev (iommu_units io ! m))" "device (dev (iommu_units io ! m) ! k) = hnd"
        "attached (dev (iommu_units io3 ! m) ! k)" by blast
      with sh have "0 \<le> m \<and> m < unit_count io3 \<and> m < length (iommu_units io3) \<and>
         k < dev_count (iommu_units io3 ! m) \<and> k < length (dev (iommu_units io3 ! m)) \<and>
         attached (dev (iommu_units io3 ! m) ! k)" by simp
      with off c3 have "bound_domain cs4 (device (dev (iommu_units io3 ! m) ! k)) = 0" by blast
      moreover from sh mk have "device (dev (iommu_units io3 ! m) ! k) = hnd" by simp
      ultimately show ?thesis using d1(5) by simp
    qed
  qed
qed

lemma bound_start_pre: "bound_domain (calls (start_pre h e d)) = bound_domain (calls d)"
  by (simp add: start_pre_def Let_def bound_domain_def)

lemma start_post_on:
  assumes ns: "\<not> started h d" and dp: "default_pt h e d \<noteq> 0"
    and st: "kgsl_iommu_start h e d = Inr (status, d')" and n: "no_ctx_attached d"
  shows "(\<forall>io. priv (mmu d) = Some io \<longrightarrow>
        status = first_attach_error e (pt_priv d (default_pt h e d)) (ctx_handles io)) \<and>
     (status = 0 \<longrightarrow> every_ctx_on d') \<and>
     (status \<noteq> 0 \<longrightarrow>
        (\<forall>hnd. bound_domain (calls d') hnd = 0 \<or>
               bound_domain (calls d') hnd = bound_domain (calls d) hnd))"
proof -
  note u = st[unfolded start_unfold[OF ns dp]]
  from u obtain d3 where att: "kgsl_attach_pagetable_iommu_domain e (start_pre h e d) = Inr (status, d3)"
    by (auto split: sum.splits if_splits)
  note f = start_pre_frame[of h e d]
  from n f have n': "no_ctx_attached (start_pre h e d)" by (simp add: no_ctx_attached_def)
  have 1: "status = first_attach_error e (pt_priv d (default_pt h e d)) (ctx_handles io)"
    if "priv (mmu d) = Some io" for io
    using kgsl_attach_first[OF att n', of io] that f by simp
  have 2: "every_ctx_on d'" if z: "status = 0"
  proof -
    from u att z have d': "d' = d3\<lparr>mmu := (mmu d3)\<lparr>flags := flags (mmu d3) OR KGSL_FLAGS_STARTED h\<rparr>\<rparr>"
      by simp
    from att z have "every_ctx_on d3" using kgsl_attach_all_on[OF _ n'] by simp
    with d' show ?thesis by (simp add: every_ctx_on_def split: option.splits)
  qed
  have 3: "bound_domain (calls d') hnd = 0 \<or> bound_domain (calls d') hnd = bound_domain (calls d) hnd"
    if nz: "status \<noteq> 0" for hnd
  proof -
    from u att nz obtain d4 where det: "kgsl_detach_pagetable_iommu_domain d3 = Inr d4"
      and d': "d' = d4\<lparr>mmu := (mmu d4)\<lparr>hwpagetable := 0\<rparr>\<rparr>"
      by (auto split: sum.splits)
    from attach_detach_unbound[OF att det, of hnd] d' show ?thesis
      by (simp add: bound_start_pre)
  qed
  from 1 2 3 show ?thesis by blast
qed

lemma all_on_all_attached: "all_on cs domain io \<Longrightarrow> all_attached io"
  by (auto simp: all_on_def all_on_unit_def all_attached_def all_attached_unit_def list_all_iff)

lemma kgsl_detach_unbinds:
  assumes t: "kgsl_detach_pagetable_iommu_domain d = Inr d'" and io: "priv (mmu d) = Some io"
    and a: "all_attached io"
  shows "\<forall>hnd \<in> set (ctx_handles io). bound_domain (calls d') hnd = 0"
  using t
proof (cases rule: kgsl_detach_cases)
  case (1 io1 io' cs')
  with io have [simp]: "io1 = io" by simp
  note off = detach_units_off[OF 1(4)[simplified]]
  show ?thesis
  proof
    fix hnd assume "hnd \<in> set (ctx_handles io)"
    from ctx_handles_memD[OF this] obtain m k where mk: "m < unit_count io"
      "m < length (iommu_units io)" "k < dev_count (iommu_units io ! m)"
      "k < length (dev (iommu_units io ! m))" "hnd = device (dev (iommu_units io ! m) ! k)"
      by blast
    from a mk have "attached (dev (iommu_units io ! m) ! k)"
      by (simp add: all_attached_def all_attached_unit_def list_all_take_iff)
    with off mk have "bound_domain cs' hnd = 0" by simp
    with 1(5) show "bound_domain (calls d') hnd = 0" by simp
  qed
qed

lemma kgsl_attach_bound:
  assumes "kgsl_attach_pagetable_iommu_domain e d = Inr (ret, d')"
  shows "bound_domain (calls d') hnd = bound_domain (calls d) hnd \<or>
     bound_domain (calls d') hnd = pt_priv d (hwpagetable (mmu d))"
  using assms
proof (cases rule: kgsl_attach_cases)
  case (1 io io' cs')
  from attach_units_on[OF 1(4)] 1(5) show ?thesis by simp
qed

lemma step_invariant:
  assumes m: "KGSL_FLAGS_STARTED h \<noteq> 0" and inv: "MmuController_invariant h d"
    and adm: "admissible_op h x d" and st: "step h x d = Inr d'"
  shows "MmuController_invariant h d'"
proof (cases x)
  case (Mmu_init e pdata)
  with adm have ns: "\<not> started h d" by simp
  from st Mmu_init obtain status where "kgsl_iommu_init h e pdata d = Inr (status, d')"
    by (cases "kgsl_iommu_init h e pdata d") auto
  from init_post[OF this] inv ns show ?thesis
    by (simp add: MmuController_invariant_def started_def)
next
  case (Mmu_start e)
  with st obtain status where s: "kgsl_iommu_start h e d = Inr (status, d')"
    by (cases "kgsl_iommu_start h e d") auto
  show ?thesis
  proof (cases "started h d")
    case True
    with s have "d' = d" by (simp add: kgsl_iommu_start_def started_def)
    with inv show ?thesis by simp
  next
    case ns: False
    with inv have n: "no_ctx_attached d" by (simp add: MmuController_invariant_def)
    show ?thesis
    proof (cases "default_pt h e d = 0")
      case True
      from start_nomem[OF ns True] s inv ns show ?thesis
        by (auto simp: MmuController_invariant_def started_def no_ctx_attached_def)
    next
      case False
      note p = start_post[OF ns False s] and q = start_post_on[OF ns False s n]
      show ?thesis
      proof (cases "status = 0")
        case True
        with p q False m show ?thesis
          by (simp add: MmuController_invariant_def started_def started_OR)
      next
        case False
        with p ns show ?thesis
          by (simp add: MmuController_invariant_def started_def)
      qed
    qed
  qed
next
  case Mmu_stop
  with st obtain r where s: "kgsl_iommu_stop h d = Inr (r, d')"
    by (cases "kgsl_iommu_stop h d") auto
  show ?thesis
  proof (cases "started h d")
    case True
    from stop_post[OF s True] show ?thesis by (simp add: MmuController_invariant_def)
  next
    case False
    with s have "d' = d" by (simp add: kgsl_iommu_stop_def started_def)
    with inv show ?thesis by simp
  qed
next
  case (Mmu_setstate e p c)
  with st have s: "kgsl_iommu_setstate h e d p c = Inr d'" by simp
  from s show ?thesis
  proof (cases rule: setstate_cases)
    case noop
    with inv show ?thesis by simp
  next
    case (to_null d1)
    with adm Mmu_setstate show ?thesis by simp
  next
    case (switch d1 ret)
    let ?di = "d\<lparr>calls := calls d @ [Kgsl_idle (KGSL_TIMEOUT_DEFAULT h)]\<rparr>"
    let ?d2 = "d1\<lparr>mmu := (mmu d1)\<lparr>hwpagetable := p\<rparr>\<rparr>"
    note dp = kgsl_detach_post[OF switch(4)] and ap = kgsl_attach_post[OF switch(5)]
    from dp have sf: "same_frame ?di d1" by simp
    have "ret = 0"
    proof (rule ccontr)
      assume "ret \<noteq> 0"
      with ap obtain io2 hnd where io2: "priv (mmu ?d2) = Some io2"
        and hnd: "hnd \<in> set (ctx_handles io2)"
        and ret: "ret = iommu_attach_device e (pt_priv ?d2 (hwpagetable (mmu ?d2))) hnd"
        by blast
      from sf io2 obtain io where io: "priv (mmu d) = Some io" "iommu_shape io2 = iommu_shape io"
        by (cases "priv (mmu d)") (auto simp: same_frame_def)
      from adm Mmu_setstate switch(1,2) io have "attach_ok e (pt_priv d p) io" by simp
      with hnd ctx_handles_shape[OF io(2)]
      have "iommu_attach_device e (pt_priv d p) hnd = 0"
        by (simp add: attach_ok_def list_all_iff)
      with ret sf \<open>ret \<noteq> 0\<close> show False by (simp add: same_frame_def)
    qed
    from dp have "no_ctx_attached ?d2" by (simp add: no_ctx_attached_def)
    from kgsl_attach_all_on[OF _ this] switch(5) \<open>ret = 0\<close> have "every_ctx_on d'" by simp
    with ap sf switch(1,3) show ?thesis
      by (simp add: MmuController_invariant_def started_def same_frame_def)
  qed
qed

lemma wf_deviceI: "priv (mmu d) = Some io \<Longrightarrow> wf_iommu io \<Longrightarrow> wf_device d"
  by (simp add: wf_device_def)

lemma get_ctxs_loop_ret:
  "dev_count u + length data \<le> length (dev u) \<Longrightarrow>
     \<exists>u' cs'. get_ctxs_loop h e data (u, cs) =
         Inr (if list_ex (bad_ctxt h e) data then - EINVAL h else 0, u', cs') \<and>
       length (dev u') = length (dev u) \<and> dev_count u' \<le> dev_count u + length data"
proof (induction data arbitrary: u cs)
  case Nil
  then show ?case by simp
next
  case (Cons c rest)
  show ?case
  proof (cases "iommu_ctx_name c")
    case None
    from Cons.prems have "dev_count u + length rest \<le> length (dev u)" by simp
    from Cons.IH[OF this, of cs] None show ?thesis
      by (auto simp: bad_ctxt_def)
  next
    case (Some name)
    let ?k = "dev_count u"
    let ?u1 = "u\<lparr>dev := (dev u)[?k := (dev u ! ?k)\<lparr>device := msm_iommu_get_ctx e name\<rparr>]\<rparr>"
    let ?u2 = "?u1\<lparr>dev := (dev ?u1)[dev_count ?u1 :=
                     (dev ?u1 ! dev_count ?u1)\<lparr>ctx_id := decl_ctx_id c\<rparr>],
                   dev_count := dev_count ?u1 + 1\<rparr>"
    from Cons.prems have len: "?k < length (dev u)" by simp
    show ?thesis
    proof (cases "bad_ctxt h e c")
      case True
      with Some len show ?thesis
        by (auto simp: bad_ctxt_def Let_def)
    next
      case False
      let ?cs2 = "(cs @ [Msm_iommu_get_ctx name]) @ [Log KGSL_DRV_INFO]"
      have unf: "get_ctxs_loop h e (c # rest) (u, cs) = get_ctxs_loop h e rest (?u2, ?cs2)"
        using False Some len by (auto simp: bad_ctxt_def Let_def)
      have ex: "list_ex (bad_ctxt h e) (c # rest) = list_ex (bad_ctxt h e) rest"
        using False by simp
      have l2: "length (dev ?u2) = length (dev u)" "dev_count ?u2 = dev_count u + 1"
        by simp_all
      from Cons.prems have "dev_count ?u2 + length rest \<le> length (dev ?u2)" by simp
      from Cons.IH[OF this, of ?cs2]
      obtain u' cs' where
        "get_ctxs_loop h e rest (?u2, ?cs2) =
           Inr (if list_ex (bad_ctxt h e) rest then - EINVAL h else 0, u', cs')"
        "length (dev u') = length (dev ?u2)" "dev_count u' \<le> dev_count ?u2 + length rest"
        by blast
      then have "get_ctxs_loop h e (c # rest) (u, cs) =
           Inr (if list_ex (bad_ctxt h e) (c # rest) then - EINVAL h else 0, u', cs')"
        "length (dev u') = length (dev u)" "dev_count u' \<le> dev_count u + length (c # rest)"
        unfolding unf ex l2 by simp_all
      then show ?thesis by blast
    qed
  qed
qed


lemma get_iommu_ctxs_ret:
  assumes "unit_id < length (iommu_units io)" "dev_count (iommu_units io ! unit_id) = 0"
    "length (dev (iommu_units io ! unit_id)) = KGSL_IOMMU_MAX_DEVS_PER_UNIT h"
  shows "\<exists>io' cs'. get_iommu_ctxs h e data unit_id (io, cs) =
         Inr (if bad_unit h e data then - EINVAL h else 0, io', cs') \<and>
       length (iommu_units io') = length (iommu_units io) \<and>
       (\<forall>k. k \<noteq> unit_id \<longrightarrow> iommu_units io' ! k = iommu_units io ! k)"
proof (cases "length data > KGSL_IOMMU_MAX_DEVS_PER_UNIT h")
  case True
  then show ?thesis by (simp add: get_iommu_ctxs_def bad_unit_def)
next
  case False
  with assms have "dev_count (iommu_units io ! unit_id) + length data
      \<le> length (dev (iommu_units io ! unit_id))" by simp
  from get_ctxs_loop_ret[OF this, of h e cs] obtain u' cs' where
    "get_ctxs_loop h e data (iommu_units io ! unit_id, cs) =
       Inr (if list_ex (bad_ctxt h e) data then - EINVAL h else 0, u', cs')" by blast
  with False assms(1) show ?thesis
    by (simp add: get_iommu_ctxs_def bad_unit_def)
qed

lemma get_units_loop_ret:
  assumes "EINVAL h \<noteq> 0"
  shows "i + length pdata \<le> length (iommu_units io) \<Longrightarrow>
     \<forall>k. i \<le> k \<and> k < length (iommu_units io) \<longrightarrow>
        dev_count (iommu_units io ! k) = 0 \<and>
        length (dev (iommu_units io ! k)) = KGSL_IOMMU_MAX_DEVS_PER_UNIT h \<Longrightarrow>
     \<exists>io' cs'. get_units_loop h e pdata i (io, cs) =
         Inr (if list_ex (bad_unit h e) pdata then - EINVAL h else 0, io', cs')"
proof (induction pdata arbitrary: i io cs)
  case Nil
  then show ?case by simp
next
  case (Cons data rest)
  from Cons.prems have i: "i < length (iommu_units io)" "dev_count (iommu_units io ! i) = 0"
    "length (dev (iommu_units io ! i)) = KGSL_IOMMU_MAX_DEVS_PER_UNIT h" by simp_all
  from get_iommu_ctxs_ret[OF i, of e data cs] obtain io1 cs1 where
    g: "get_iommu_ctxs h e data i (io, cs) =
         Inr (if bad_unit h e data then - EINVAL h else 0, io1, cs1)"
    and l: "length (iommu_units io1) = length (iommu_units io)"
    and o: "\<forall>k. k \<noteq> i \<longrightarrow> iommu_units io1 ! k = iommu_units io ! k" by blast
  show ?case
  proof (cases "bad_unit h e data")
    case True
    with g assms show ?thesis by simp
  next
    case False
    from Cons.prems(1) l have 1: "(i + 1) + length rest \<le> length (iommu_units io1)" by simp
    from Cons.prems(2) l o have 2: "\<forall>k. i + 1 \<le> k \<and> k < length (iommu_units io1) \<longrightarrow>
        dev_count (iommu_units io1 ! k) = 0 \<and>
        length (dev (iommu_units io1 ! k)) = KGSL_IOMMU_MAX_DEVS_PER_UNIT h" by simp
    from Cons.IH[OF 1 2, of cs1] g False show ?thesis by simp
  qed
qed

lemma kgsl_get_iommu_ctxt_ret:
  assumes "EINVAL h \<noteq> 0"
  shows "\<exists>io' cs'. kgsl_get_iommu_ctxt h e pdata (zeroed_iommu h, cs) =
     Inr (if KGSL_IOMMU_MAX_UNITS h < length pdata \<or> list_ex (bad_unit h e) pdata
          then - EINVAL h else 0, io', cs')"
proof (cases "KGSL_IOMMU_MAX_UNITS h < length pdata")
  case True
  then show ?thesis by (simp add: kgsl_get_iommu_ctxt_def)
next
  case False
  then have 1: "0 + length pdata \<le> length (iommu_units (zeroed_iommu h))"
    by (simp add: zeroed_iommu_def)
  have 2: "\<forall>k. 0 \<le> k \<and> k < length (iommu_units (zeroed_iommu h)) \<longrightarrow>
        dev_count (iommu_units (zeroed_iommu h) ! k) = 0 \<and>
        length (dev (iommu_units (zeroed_iommu h) ! k)) = KGSL_IOMMU_MAX_DEVS_PER_UNIT h"
    by (simp add: zeroed_iommu_def)
  from get_units_loop_ret[OF assms 1 2, of e cs] False show ?thesis
    by (auto simp: kgsl_get_iommu_ctxt_def)
qed

section \<open>The claims\<close>

text \<open>
  Claim C6. \<open>kgsl_iommu_unmap\<close> always returns 0. It masks the descriptor's address with
  \<open>KGSL_MMU_ALIGN_MASK\<close> first; when the size or the masked address is zero it makes no
  call at all; otherwise it makes one call of \<open>iommu_unmap_range\<close> with the masked
  address, and when that call fails the only further effect is one call of the error log.
\<close>

theorem unmap_masks_and_always_succeeds:
  "fst (kgsl_iommu_unmap h e pt m) = 0 \<and>
   (memdesc_size m = 0 \<or> gpuaddr m AND KGSL_MMU_ALIGN_MASK h = 0 \<longrightarrow>
      snd (kgsl_iommu_unmap h e pt m) = []) \<and>
   (memdesc_size m \<noteq> 0 \<and> gpuaddr m AND KGSL_MMU_ALIGN_MASK h \<noteq> 0 \<longrightarrow>
      snd (kgsl_iommu_unmap h e pt m) =
        Iommu_unmap_range pt (gpuaddr m AND KGSL_MMU_ALIGN_MASK h) (memdesc_size m) #
        (if iommu_unmap_range e pt (gpuaddr m AND KGSL_MMU_ALIGN_MASK h) (memdesc_size m) \<noteq> 0
         then [Log KGSL_CORE_ERR] else []))"
  by (simp add: kgsl_iommu_unmap_def Let_def)

text \<open>
  Witness for C6: an unmap whose \<open>iommu_unmap_range\<close> fails, at the address 0x1234 (masked
  to 0x1000), and an unmap at the address 0xFFF, which the mask turns into 0.
\<close>

theorem unmap_masks_and_always_succeeds_witness:
  "kgsl_iommu_unmap msm_hdr env_unmap_fail 0xD100 memdesc0 =
     (0, [Iommu_unmap_range 0xD100 0x1000 4096, Log KGSL_CORE_ERR]) \<and>
   kgsl_iommu_unmap msm_hdr env_unmap_fail 0xD100 (memdesc0\<lparr>gpuaddr := 0xFFF\<rparr>) = (0, [])"
proof -
  have m: "(0x1234 :: 32 word) AND 0xFFFFF000 = 0x1000" "(0xFFF :: 32 word) AND 0xFFFFF000 = 0"
    by simp_all
  show ?thesis
    using unmap_masks_and_always_succeeds[of msm_hdr env_unmap_fail "0xD100" memdesc0]
      unmap_masks_and_always_succeeds[of msm_hdr env_unmap_fail "0xD100" "memdesc0\<lparr>gpuaddr := 0xFFF\<rparr>"]
    by (simp add: ex_defs m prod_eq_iff)
qed

text \<open>
  Claim C7, as amended. \<open>kgsl_iommu_map\<close> called with a null domain does not return an
  error: the \<open>BUG_ON\<close> at its head fires, whatever the descriptor and the flags.
\<close>

theorem map_null_domain_is_BUG:
  "kgsl_iommu_map h e 0 m protflags = Inl BUG"
  by (simp add: kgsl_iommu_map_def)

text \<open>
  Counterexample to C7 as stated: with a null domain the map of the example descriptor
  does not return \<open>-EINVAL\<close>; it does not return at all.
\<close>

theorem map_null_domain_counterexample:
  "kgsl_iommu_map msm_hdr env_ok 0 memdesc0 3 \<noteq> Inr (- EINVAL msm_hdr, [])
   \<and> isl (kgsl_iommu_map msm_hdr env_ok 0 memdesc0 3)"
  by (simp add: kgsl_iommu_map_def)

text \<open>
  Claim C8. The result of \<open>kgsl_iommu_map\<close> does not depend on the protection flags it
  is given; with a domain that is not null it makes exactly one call of
  \<open>iommu_map_range\<close>, with the protection \<open>IOMMU_READ | IOMMU_WRITE\<close>, and returns what
  that call returns.
\<close>

theorem map_ignores_protflags:
  "kgsl_iommu_map h e domain m protflags = kgsl_iommu_map h e domain m protflags' \<and>
   (domain \<noteq> 0 \<longrightarrow>
      filter is_map_range (snd (projr (kgsl_iommu_map h e domain m protflags))) =
        [Iommu_map_range domain (gpuaddr m) (sg m) (memdesc_size m)
           (IOMMU_READ h OR IOMMU_WRITE h)] \<and>
      map_sum id fst (kgsl_iommu_map h e domain m protflags) =
        Inr (iommu_map_range e domain (gpuaddr m) (sg m) (memdesc_size m)
               (IOMMU_READ h OR IOMMU_WRITE h)))"
  by (simp add: kgsl_iommu_map_def Let_def)

text \<open>
  Witness for C8: the example descriptor mapped with the flags 0 and 1.
\<close>

theorem map_ignores_protflags_witness:
  "kgsl_iommu_map msm_hdr env_ok 0xD100 memdesc0 0 =
     kgsl_iommu_map msm_hdr env_ok 0xD100 memdesc0 1 \<and>
   (0xD100 :: 32 word) \<noteq> 0 \<and>
   filter is_map_range (snd (projr (kgsl_iommu_map msm_hdr env_ok 0xD100 memdesc0 0))) =
     [Iommu_map_range 0xD100 0x1234 0x5000 4096 3] \<and>
   map_sum id fst (kgsl_iommu_map msm_hdr env_ok 0xD100 memdesc0 0) = Inr 0"
proof -
  have o: "(1 :: 32 word) OR 2 = 3" by simp
  note t = map_ignores_protflags[of msm_hdr env_ok "0xD100" memdesc0 0 1]
  from t have "kgsl_iommu_map msm_hdr env_ok 0xD100 memdesc0 0 =
     kgsl_iommu_map msm_hdr env_ok 0xD100 memdesc0 1" by (rule conjunct1)
  moreover from t[THEN conjunct2] have
    "filter is_map_range (snd (projr (kgsl_iommu_map msm_hdr env_ok 0xD100 memdesc0 0))) =
     [Iommu_map_range 0xD100 0x1234 0x5000 4096 3] \<and>
     map_sum id fst (kgsl_iommu_map msm_hdr env_ok 0xD100 memdesc0 0) = Inr 0"
    by (simp add: memdesc0_def msm_hdr_def env_ok_def o)
  ultimately show ?thesis by simp
qed

text \<open>
  Claim C10. \<open>kgsl_iommu_get_current_ptbase\<close> dereferences \<open>hwpagetable\<close> without a test:
  with a null \<open>hwpagetable\<close> it ends in a null dereference and returns no token, otherwise
  it returns the domain of the hardware pagetable; after a stop of a started controller
  the pointer is null, so the call ends in the null dereference.
\<close>

theorem get_current_ptbase_null_deref:
  "(hwpagetable (mmu d) = 0 \<longrightarrow> kgsl_iommu_get_current_ptbase d = Inl NullDeref) \<and>
   (hwpagetable (mmu d) \<noteq> 0 \<longrightarrow>
      kgsl_iommu_get_current_ptbase d = Inr (pt_priv d (hwpagetable (mmu d)))) \<and>
   (started h d \<and> kgsl_iommu_stop h d = Inr (r, d') \<longrightarrow>
      kgsl_iommu_get_current_ptbase d' = Inl NullDeref)"
  by (auto simp: kgsl_iommu_get_current_ptbase_def kgsl_iommu_stop_def started_def
      split: sum.splits)

text \<open>
  Witness for C10: the device before start, the started device, and the started device
  after a stop.
\<close>

theorem get_current_ptbase_null_deref_witness:
  "kgsl_iommu_get_current_ptbase dev0 = Inl NullDeref \<and>
   kgsl_iommu_get_current_ptbase dev_started = Inr 0xD100 \<and>
   started msm_hdr dev_started \<and>
   (\<exists>d'. kgsl_iommu_stop msm_hdr dev_started = Inr (0, d') \<and>
      kgsl_iommu_get_current_ptbase d' = Inl NullDeref)"
proof -
  have s: "started msm_hdr dev_started" by (simp add: started_def ex_defs)
  obtain r d' where st: "kgsl_iommu_stop msm_hdr dev_started = Inr (r, d')" and r: "r = 0"
    by (simp add: kgsl_iommu_stop_def kgsl_detach_pagetable_iommu_domain_def ex_defs
        detach_units.simps detach_devs.simps)
  from get_current_ptbase_null_deref[of dev0 msm_hdr 0 dev0]
    get_current_ptbase_null_deref[of dev_started msm_hdr r d'] s st r
  show ?thesis by (simp add: ex_defs)
qed

text \<open>
  Claim C5. \<open>kgsl_iommu_setstate\<close> changes nothing when the controller is not started,
  and nothing when the pagetable is the hardware pagetable already. After a call that
  returns, a second call with the same pagetable changes nothing (no call is added to
  the record of calls), and the first call waited for idle at most once.
\<close>

theorem setstate_noop_and_idempotent:
  "(\<not> started h d \<longrightarrow> kgsl_iommu_setstate h e d p c = Inr d) \<and>
   (hwpagetable (mmu d) = p \<longrightarrow> kgsl_iommu_setstate h e d p c = Inr d) \<and>
   (kgsl_iommu_setstate h e d p c = Inr d1 \<longrightarrow>
      kgsl_iommu_setstate h e2 d1 p c2 = Inr d1 \<and>
      length (filter is_idle (calls d1)) \<le> Suc (length (filter is_idle (calls d))))"
proof (intro conjI impI)
  assume a: "kgsl_iommu_setstate h e d p c = Inr d1"
  show "kgsl_iommu_setstate h e2 d1 p c2 = Inr d1"
  proof (cases "\<not> started h d \<or> hwpagetable (mmu d) = p")
    case True
    with a have "d1 = d" by (simp add: setstate_noop)
    with True show ?thesis by (simp add: setstate_noop)
  next
    case False
    with setstate_post[OF a] have "hwpagetable (mmu d1) = p" by simp
    then show ?thesis by (simp add: setstate_noop)
  qed
  show "length (filter is_idle (calls d1)) \<le> Suc (length (filter is_idle (calls d)))"
  proof (cases "\<not> started h d \<or> hwpagetable (mmu d) = p")
    case True
    with a have "d1 = d" by (simp add: setstate_noop)
    then show ?thesis by simp
  next
    case False
    with setstate_post[OF a] show ?thesis by simp
  qed
qed (simp_all add: setstate_noop)

text \<open>
  Witness for C5: the stopped device, the started device with its own pagetable, and the
  started device switched twice to the pagetable at 0x200.
\<close>

theorem setstate_noop_and_idempotent_witness:
  "\<not> started msm_hdr dev_stopped \<and>
   kgsl_iommu_setstate msm_hdr env_ok dev_stopped 0x200 0 = Inr dev_stopped \<and>
   hwpagetable (mmu dev_started) = 0x100 \<and>
   kgsl_iommu_setstate msm_hdr env_ok dev_started 0x100 0 = Inr dev_started \<and>
   (\<exists>d1. kgsl_iommu_setstate msm_hdr env_ok dev_started 0x200 0 = Inr d1 \<and>
      hwpagetable (mmu d1) = 0x200 \<and>
      kgsl_iommu_setstate msm_hdr env_ok d1 0x200 0 = Inr d1 \<and>
      filter is_idle (calls d1) = [Kgsl_idle 0xFFFFFFFF])"
proof -
  have 1: "\<not> started msm_hdr dev_stopped" by (simp add: started_def ex_defs)
  have 2: "hwpagetable (mmu dev_started) = 0x100" by (simp add: ex_defs)
  obtain d1 where 3: "kgsl_iommu_setstate msm_hdr env_ok dev_started 0x200 0 = Inr d1"
    and 4: "hwpagetable (mmu d1) = 0x200" "filter is_idle (calls d1) = [Kgsl_idle 0xFFFFFFFF]"
    by (simp add: eval_defs ex_defs)
  from setstate_noop_and_idempotent[of msm_hdr dev_stopped env_ok "0x200" 0 dev_stopped env_ok 0]
    setstate_noop_and_idempotent[of msm_hdr dev_started env_ok "0x100" 0 dev_started env_ok 0]
    setstate_noop_and_idempotent[of msm_hdr dev_started env_ok "0x200" 0 d1 env_ok 0]
    1 2 3 4
  show ?thesis by simp
qed

text \<open>
  Claim C2, as amended. Take a started controller on which the invariant holds and whose
  counts are within its arrays, and a pagetable \<open>p\<close> that is not the hardware pagetable, is
  not null and has a domain. \<open>kgsl_iommu_setstate\<close> with \<open>p\<close> returns no error and
  discards what \<open>kgsl_idle\<close> returns: whatever the idle wait returns (\<open>r\<close>), the call
  waits once and performs the switch. Afterwards \<open>p\<close> is the hardware pagetable and the
  current base is the domain of \<open>p\<close>; every context in use has been detached from the old
  domain, so that it is bound to no domain or to the domain of \<open>p\<close>; and when
  \<open>iommu_attach_device\<close> accepts the domain of \<open>p\<close> on every context in use, the
  invariant holds again: every context in use is attached to the domain of \<open>p\<close>.
\<close>

theorem setstate_discards_idle_result:
  assumes "MmuController_invariant h d" "started h d" "priv (mmu d) = Some io" "wf_iommu io"
    "hwpagetable (mmu d) \<noteq> p" "p \<noteq> 0" "pt_priv d p \<noteq> 0"
  shows "\<exists>d1. kgsl_iommu_setstate h e d p c = Inr d1 \<and>
     kgsl_iommu_setstate h (e\<lparr>kgsl_idle := r\<rparr>) d p c = Inr d1 \<and>
     hwpagetable (mmu d1) = p \<and>
     filter is_idle (calls d1) = filter is_idle (calls d) @ [Kgsl_idle (KGSL_TIMEOUT_DEFAULT h)] \<and>
     kgsl_iommu_get_current_ptbase d1 = Inr (pt_priv d p) \<and>
     (\<forall>hnd \<in> set (ctx_handles io).
        bound_domain (calls d1) hnd = 0 \<or> bound_domain (calls d1) hnd = pt_priv d p) \<and>
     (attach_ok e (pt_priv d p) io \<longrightarrow> MmuController_invariant h d1)"
proof -
  from assms(1,2) have hw: "hwpagetable (mmu d) \<noteq> 0" "pt_priv d (hwpagetable (mmu d)) \<noteq> 0"
    and on: "every_ctx_on d" by (simp_all add: MmuController_invariant_def)
  from assms(2) have m: "KGSL_FLAGS_STARTED h \<noteq> 0" by (auto simp: started_def)
  note wf = wf_deviceI[OF assms(3,4)]
  from setstate_total[OF wf hw, of p h e c] assms(7) obtain d1
    where s: "kgsl_iommu_setstate h e d p c = Inr d1" by blast
  have env: "kgsl_iommu_setstate h (e\<lparr>kgsl_idle := r\<rparr>) d p c = kgsl_iommu_setstate h e d p c"
    by (rule setstate_env) simp
  note post = setstate_post[OF s assms(2,5)]
  have b: "bound_domain (calls d1) hnd = 0 \<or> bound_domain (calls d1) hnd = pt_priv d p"
    if hnd: "hnd \<in> set (ctx_handles io)" for hnd
    using s
  proof (cases rule: setstate_cases)
    case noop
    with assms(2,5) show ?thesis by simp
  next
    case (to_null d')
    with assms(6) show ?thesis by simp
  next
    case (switch d' ret)
    let ?di = "d\<lparr>calls := calls d @ [Kgsl_idle (KGSL_TIMEOUT_DEFAULT h)]\<rparr>"
    from on assms(3) have "all_attached io"
      by (simp add: every_ctx_on_def all_on_all_attached)
    from kgsl_detach_unbinds[OF switch(4) _ this] assms(3) hnd
    have 0: "bound_domain (calls d') hnd = 0" by simp
    from kgsl_detach_post[OF switch(4)] have "pt_priv d' = pt_priv d"
      by (simp add: same_frame_def)
    with kgsl_attach_bound[OF switch(5), of hnd] 0 show ?thesis by auto
  qed
  have i: "MmuController_invariant h d1" if ok: "attach_ok e (pt_priv d p) io"
  proof -
    have "admissible_op h (Mmu_setstate e p c) d" using assms(3,6) ok by simp
    moreover have "step h (Mmu_setstate e p c) d = Inr d1" using s by simp
    ultimately show ?thesis using step_invariant[OF m assms(1)] by blast
  qed
  from s env post b i assms(6) show ?thesis
    by (auto simp: kgsl_iommu_get_current_ptbase_def)
qed

text \<open>
  Witness for C2: the started device, with its three contexts bound to the domain
  0xD100, is switched to the pagetable at 0x200 while the idle wait times out.
\<close>

theorem setstate_discards_idle_result_witness:
  "MmuController_invariant msm_hdr dev_running \<and> started msm_hdr dev_running \<and>
   priv (mmu dev_running) = Some io_attached \<and> wf_iommu io_attached \<and>
   hwpagetable (mmu dev_running) \<noteq> 0x200 \<and> (0x200 :: 32 word) \<noteq> 0 \<and>
   pt_priv dev_running 0x200 \<noteq> 0 \<and> attach_ok env_ok (pt_priv dev_running 0x200) io_attached \<and>
   (\<exists>d1. kgsl_iommu_setstate msm_hdr env_ok dev_running 0x200 0 = Inr d1 \<and>
      kgsl_iommu_setstate msm_hdr env_timeout dev_running 0x200 0 = Inr d1 \<and>
      hwpagetable (mmu d1) = 0x200 \<and>
      kgsl_iommu_get_current_ptbase d1 = Inr 0xD200 \<and>
      MmuController_invariant msm_hdr d1)"
proof -
  have 1: "started msm_hdr dev_running" "priv (mmu dev_running) = Some io_attached"
    "hwpagetable (mmu dev_running) \<noteq> 0x200" "(0x200 :: 32 word) \<noteq> 0"
    "pt_priv dev_running 0x200 \<noteq> 0" "pt_priv dev_running 0x200 = 0xD200"
    by (simp_all add: started_def dev_running_def ex_defs)
  have 2: "wf_iommu io_attached"
    by (simp add: wf_iommu_def wf_unit_def ex_defs)
  have 3: "MmuController_invariant msm_hdr dev_running" by code_simp
  have 4: "attach_ok env_ok (pt_priv dev_running 0x200) io_attached" by code_simp
  have 5: "env_ok\<lparr>kgsl_idle := (\<lambda>t. - 110)\<rparr> = env_timeout" by (simp add: env_timeout_def)
  from setstate_discards_idle_result[OF 3 1(1,2) 2 1(3,4,5), of env_ok 0 "\<lambda>t. - 110"] 4
  obtain d1 where "kgsl_iommu_setstate msm_hdr env_ok dev_running 0x200 0 = Inr d1"
    "kgsl_iommu_setstate msm_hdr (env_ok\<lparr>kgsl_idle := (\<lambda>t. - 110)\<rparr>) dev_running 0x200 0 = Inr d1"
    "hwpagetable (mmu d1) = 0x200"
    "kgsl_iommu_get_current_ptbase d1 = Inr (pt_priv dev_running 0x200)" "MmuController_invariant msm_hdr d1"
    by blast
  with 1 2 3 4 show ?thesis unfolding 5 by auto
qed

text \<open>
  Counterexample to C2 as stated: the idle wait of the switch times out (\<open>kgsl_idle\<close>
  returns -110), and the switch is performed all the same: the current base is the
  domain 0xD100 before the call and the domain 0xD200 after it.
\<close>

theorem setstate_timeout_counterexample:
  "kgsl_idle env_timeout (KGSL_TIMEOUT_DEFAULT msm_hdr) = - 110 \<and>
   started msm_hdr dev_started \<and>
   kgsl_iommu_get_current_ptbase dev_started = Inr 0xD100 \<and>
   map_sum id kgsl_iommu_get_current_ptbase
     (kgsl_iommu_setstate msm_hdr env_timeout dev_started 0x200 0) = Inr (Inr 0xD200)"
  by (simp add: eval_defs ex_defs)

text \<open>
  Claim C3. Take a controller that is initialised and not started, with no context in
  use attached, and a default pagetable that exists and has a domain. When
  \<open>iommu_attach_device\<close> fails on some context in use, \<open>kgsl_iommu_start\<close> returns the
  error of the first context, in discovery order, on which it fails, and that error is
  not 0; no context in use is left with its attached flag set; every context the start
  had bound is unbound again (each context is bound to no domain or bound as before the
  call); the hardware pagetable is null; and the flags are unchanged, so the controller
  is still not started.
\<close>

theorem start_attach_failure_rolls_back:
  assumes "\<not> started h d" "priv (mmu d) = Some io" "wf_iommu io" "none_attached io"
    "default_pt h e d \<noteq> 0" "pt_priv d (default_pt h e d) \<noteq> 0"
    "\<not> attach_ok e (pt_priv d (default_pt h e d)) io"
  shows "\<exists>d'. kgsl_iommu_start h e d =
       Inr (first_attach_error e (pt_priv d (default_pt h e d)) (ctx_handles io), d') \<and>
     first_attach_error e (pt_priv d (default_pt h e d)) (ctx_handles io) \<noteq> 0 \<and>
     no_ctx_attached d' \<and> hwpagetable (mmu d') = 0 \<and>
     flags (mmu d') = flags (mmu d) \<and> \<not> started h d' \<and>
     (\<forall>hnd. bound_domain (calls d') hnd = 0 \<or>
            bound_domain (calls d') hnd = bound_domain (calls d) hnd)"
proof -
  let ?err = "first_attach_error e (pt_priv d (default_pt h e d)) (ctx_handles io)"
  note wf = wf_deviceI[OF assms(2,3)]
  from assms(2,4) have n: "no_ctx_attached d" by (simp add: no_ctx_attached_def)
  from start_total[OF assms(1,5) wf assms(6)] obtain status d'
    where st: "kgsl_iommu_start h e d = Inr (status, d')" by blast
  note q = start_post_on[OF assms(1,5) st n] and p = start_post[OF assms(1,5) st]
  from q assms(2) have s: "status = ?err" by simp
  from assms(7) have nz: "?err \<noteq> 0" by (simp add: first_attach_error_0 attach_ok_def)
  from p q s nz st assms(1) show ?thesis
    by (auto simp: started_def)
qed

text \<open>
  Witness for C3: the stopped device of the scenario, started while the attach of the
  third context (ctxC) fails with -5. The two contexts attached before it are detached
  again and no context is left bound.
\<close>

theorem start_attach_failure_rolls_back_witness:
  "\<not> started msm_hdr dev_stopped \<and> priv (mmu dev_stopped) = Some io_detached \<and>
   wf_iommu io_detached \<and> none_attached io_detached \<and>
   default_pt msm_hdr env_attach_fail dev_stopped \<noteq> 0 \<and>
   pt_priv dev_stopped (default_pt msm_hdr env_attach_fail dev_stopped) \<noteq> 0 \<and>
   \<not> attach_ok env_attach_fail
        (pt_priv dev_stopped (default_pt msm_hdr env_attach_fail dev_stopped)) io_detached \<and>
   (\<exists>d'. kgsl_iommu_start msm_hdr env_attach_fail dev_stopped = Inr (- 5, d') \<and>
      no_ctx_attached d' \<and> hwpagetable (mmu d') = 0 \<and> \<not> started msm_hdr d' \<and>
      map (bound_domain (calls d')) [0xA, 0xB, 0xC] = [0, 0, 0] \<and>
      calls d' = [Kgsl_regwrite 0x40 0,
        Iommu_attach_device 0xD100 0xA 0, Log KGSL_MEM_INFO,
        Iommu_attach_device 0xD100 0xB 0, Log KGSL_MEM_INFO,
        Iommu_attach_device 0xD100 0xC (- 5), Log KGSL_MEM_ERR,
        Iommu_detach_device 0xD100 0xA, Log KGSL_MEM_INFO,
        Iommu_detach_device 0xD100 0xB, Log KGSL_MEM_INFO])"
proof -
  have 1: "\<not> started msm_hdr dev_stopped" "priv (mmu dev_stopped) = Some io_detached"
    "default_pt msm_hdr env_attach_fail dev_stopped \<noteq> 0"
    "pt_priv dev_stopped (default_pt msm_hdr env_attach_fail dev_stopped) \<noteq> 0"
    by (simp_all add: started_def default_pt_def ex_defs)
  have 2: "wf_iommu io_detached" "none_attached io_detached"
    by (simp_all add: wf_iommu_def wf_unit_def none_attached_def none_attached_unit_def ex_defs)
  have 3: "\<not> attach_ok env_attach_fail
        (pt_priv dev_stopped (default_pt msm_hdr env_attach_fail dev_stopped)) io_detached"
    by code_simp
  have 4: "first_attach_error env_attach_fail
        (pt_priv dev_stopped (default_pt msm_hdr env_attach_fail dev_stopped))
        (ctx_handles io_detached) = - 5"
    by code_simp
  from start_attach_failure_rolls_back[OF 1(1,2) 2 1(3,4) 3] obtain d'
    where 5: "kgsl_iommu_start msm_hdr env_attach_fail dev_stopped = Inr (- 5, d')"
      "no_ctx_attached d'" "hwpagetable (mmu d') = 0" "\<not> started msm_hdr d'"
    unfolding 4 by blast
  from 5(1) have 6: "calls d' = [Kgsl_regwrite 0x40 0,
        Iommu_attach_device 0xD100 0xA 0, Log KGSL_MEM_INFO,
        Iommu_attach_device 0xD100 0xB 0, Log KGSL_MEM_INFO,
        Iommu_attach_device 0xD100 0xC (- 5), Log KGSL_MEM_ERR,
        Iommu_detach_device 0xD100 0xA, Log KGSL_MEM_INFO,
        Iommu_detach_device 0xD100 0xB, Log KGSL_MEM_INFO]"
    by (auto simp: eval_defs ex_defs)
  have 7: "map (bound_domain (calls d')) [0xA, 0xB, 0xC] = [0, 0, 0]"
    unfolding 6 by (simp add: bound_domain_def)
  from 1 2 3 5 6 7 show ?thesis
    by (intro conjI exI[of _ d']) simp_all
qed

text \<open>
  What holds of a stop when the hardware pagetable is not null and has a domain: the stop
  returns 0 and leaves no context in use attached and the controller not started, and
  every start after it that returns 0 leaves every context in use attached, with the
  default pagetable as the hardware pagetable and the controller started. (\<open>ENOMEM\<close> is
  not 0, so that a start which returns 0 has not failed for want of a default pagetable.)
\<close>

theorem stop_start_round_trip:
  assumes "started h d" "wf_device d" "hwpagetable (mmu d) \<noteq> 0"
    "pt_priv d (hwpagetable (mmu d)) \<noteq> 0" and nomem: "ENOMEM h \<noteq> 0"
  shows "\<exists>d1. kgsl_iommu_stop h d = Inr (0, d1) \<and> no_ctx_attached d1 \<and> \<not> started h d1 \<and>
     (\<forall>e d2. kgsl_iommu_start h e d1 = Inr (0, d2) \<longrightarrow>
        every_ctx_attached d2 \<and> started h d2 \<and> hwpagetable (mmu d2) \<noteq> 0 \<and>
        hwpagetable (mmu d2) = defaultpagetable (mmu d2))"
proof -
  from stop_total[OF assms(1-4)] obtain d1 where st: "kgsl_iommu_stop h d = Inr (0, d1)" by blast
  note sp = stop_post[OF st assms(1)]
  from assms(1) have m: "KGSL_FLAGS_STARTED h \<noteq> 0" by (auto simp: started_def)
  have "every_ctx_attached d2 \<and> started h d2 \<and> hwpagetable (mmu d2) \<noteq> 0 \<and>
        hwpagetable (mmu d2) = defaultpagetable (mmu d2)"
    if s2: "kgsl_iommu_start h e d1 = Inr (0, d2)" for e d2
  proof (cases "default_pt h e d1 = 0")
    case True
    from start_nomem[OF _ True] sp s2 have "ENOMEM h = 0" by auto
    with nomem show ?thesis by simp
  next
    case False
    from start_post[OF _ False s2] sp False m show ?thesis
      by (simp add: started_def started_OR)
  qed
  with st sp show ?thesis by blast
qed


text \<open>
  The started device of the scenario is stopped and started again.
\<close>

theorem stop_start_round_trip_witness:
  "started msm_hdr dev_started \<and> wf_device dev_started \<and>
   hwpagetable (mmu dev_started) \<noteq> 0 \<and>
   pt_priv dev_started (hwpagetable (mmu dev_started)) \<noteq> 0 \<and> ENOMEM msm_hdr \<noteq> 0 \<and>
   (\<exists>d1 d2. kgsl_iommu_stop msm_hdr dev_started = Inr (0, d1) \<and> no_ctx_attached d1 \<and>
      priv (mmu d1) = Some io_detached \<and>
      kgsl_iommu_start msm_hdr env_ok d1 = Inr (0, d2) \<and>
      every_ctx_attached d2 \<and> started msm_hdr d2 \<and> hwpagetable (mmu d2) = 0x100 \<and>
      priv (mmu d2) = Some io_attached)"
proof -
  have 1: "started msm_hdr dev_started" "hwpagetable (mmu dev_started) \<noteq> 0"
    "pt_priv dev_started (hwpagetable (mmu dev_started)) \<noteq> 0" "ENOMEM msm_hdr \<noteq> 0"
    by (simp_all add: started_def ex_defs)
  have 2: "wf_device dev_started"
    by (simp add: wf_device_def wf_iommu_def wf_unit_def ex_defs)
  from stop_start_round_trip[OF 1(1) 2 1(2,3,4)] obtain d1
    where s: "kgsl_iommu_stop msm_hdr dev_started = Inr (0, d1)" "no_ctx_attached d1"
      and r: "\<And>e d2. kgsl_iommu_start msm_hdr e d1 = Inr (0, d2) \<Longrightarrow>
        every_ctx_attached d2 \<and> started msm_hdr d2 \<and> hwpagetable (mmu d2) \<noteq> 0 \<and>
        hwpagetable (mmu d2) = defaultpagetable (mmu d2)"
    by blast
  from s(1) have d1: "d1 = dev0\<lparr>mmu := \<lparr>flags = 0, hwpagetable = 0, defaultpagetable = 0x100,
      priv = Some io_detached\<rparr>,
      calls := [Iommu_detach_device 0xD100 0xA, Log KGSL_MEM_INFO,
                Iommu_detach_device 0xD100 0xB, Log KGSL_MEM_INFO,
                Iommu_detach_device 0xD100 0xC, Log KGSL_MEM_INFO]\<rparr>"
    by (simp add: eval_defs ex_defs)
  obtain d2 where t: "kgsl_iommu_start msm_hdr env_ok d1 = Inr (0, d2)"
    and p: "priv (mmu d2) = Some io_attached" "hwpagetable (mmu d2) = 0x100"
    unfolding d1 by (simp add: eval_defs ex_defs)
  from r[OF t] s t p 1 2 d1 show ?thesis by auto
qed

text \<open>
  Claim C4. The claim says that stop succeeds on every started controller. The code does
  not: after init, start and a switch to the null pagetable, which \<open>kgsl_iommu_setstate\<close>
  accepts, the controller is started and its hardware pagetable is null, and the stop of
  that started controller hits the \<open>BUG_ON\<close> of the detach instead of returning 0.
\<close>

theorem stop_after_null_switch_panics:
  "map_sum id (\<lambda>d. (started msm_hdr d, hwpagetable (mmu d)))
     (run msm_hdr [Mmu_init env_ok pdata0, Mmu_start env_ok, Mmu_setstate env_ok 0 0] dev0)
     = Inr (True, 0) \<and>
   run msm_hdr [Mmu_init env_ok pdata0, Mmu_start env_ok, Mmu_setstate env_ok 0 0, Mmu_stop]
     dev0 = Inl BUG"
  by (simp add: eval_defs ex_defs kgsl_iommu_init_def kgsl_get_iommu_ctxt_def
      get_iommu_ctxs_def zeroed_iommu_def)

text \<open>
  Claim C1, as amended. Take the started flag to be a non-zero bit mask, a state in which
  the invariant holds, and a sequence of init, start, stop and setstate operations in
  which every init is applied to a controller that is not started and every switching
  setstate passes a pagetable that is not null and whose domain \<open>iommu_attach_device\<close>
  accepts on every context in use. Whenever the sequence runs to its end (no assertion
  fires), the invariant holds in the final state: with the started flag set the hardware
  pagetable is not null and its domain is attached to every context in use (each has its
  attached flag set and is bound to that domain); with the flag clear no context in use
  has its attached flag set.
\<close>

theorem invariant_preserved:
  assumes "KGSL_FLAGS_STARTED h \<noteq> 0" "MmuController_invariant h d" "admissible h ops d"
    "run h ops d = Inr d'"
  shows "MmuController_invariant h d'"
  using assms(2-)
proof (induction ops arbitrary: d)
  case Nil
  then show ?case by simp
next
  case (Cons x xs)
  from Cons.prems(3) obtain d1 where s: "step h x d = Inr d1" and r: "run h xs d1 = Inr d'"
    by (auto split: sum.splits)
  from Cons.prems(2) s have a: "admissible_op h x d" "admissible h xs d1" by simp_all
  from step_invariant[OF assms(1) Cons.prems(1) a(1) s] have "MmuController_invariant h d1" .
  from Cons.IH[OF this a(2) r] show ?case .
qed

text \<open>
  Witness for C1: from the device before init, the scenario is initialised and started,
  switched to the pagetable at 0x200 (while the idle wait times out), stopped, started
  with an attach that fails on the third context, started again and switched to the
  pagetable at 0x200: in the end the three contexts are bound to the domain 0xD200.
\<close>

theorem invariant_preserved_witness:
  "KGSL_FLAGS_STARTED msm_hdr \<noteq> 0 \<and> MmuController_invariant msm_hdr dev0 \<and>
   admissible msm_hdr
     [Mmu_init env_ok pdata0, Mmu_start env_ok, Mmu_setstate env_timeout 0x200 0, Mmu_stop,
      Mmu_start env_attach_fail, Mmu_setstate env_ok 0x200 0, Mmu_start env_ok,
      Mmu_setstate env_ok 0x200 0] dev0 \<and>
   (\<exists>d'. run msm_hdr
     [Mmu_init env_ok pdata0, Mmu_start env_ok, Mmu_setstate env_timeout 0x200 0, Mmu_stop,
      Mmu_start env_attach_fail, Mmu_setstate env_ok 0x200 0, Mmu_start env_ok,
      Mmu_setstate env_ok 0x200 0] dev0 = Inr d' \<and>
      started msm_hdr d' \<and> hwpagetable (mmu d') = 0x200 \<and> priv (mmu d') = Some io_attached \<and>
      map (bound_domain (calls d')) [0xA, 0xB, 0xC] = [0xD200, 0xD200, 0xD200] \<and>
      MmuController_invariant msm_hdr d')"
proof -
  let ?ops = "[Mmu_init env_ok pdata0, Mmu_start env_ok, Mmu_setstate env_timeout 0x200 0,
      Mmu_stop, Mmu_start env_attach_fail, Mmu_setstate env_ok 0x200 0, Mmu_start env_ok,
      Mmu_setstate env_ok 0x200 0]"
  have 1: "KGSL_FLAGS_STARTED msm_hdr \<noteq> 0" by (simp add: msm_hdr_def)
  have 2: "MmuController_invariant msm_hdr dev0"
    by (simp add: MmuController_invariant_def started_def no_ctx_attached_def ex_defs)
  have 3: "admissible msm_hdr ?ops dev0"
    by code_simp
  have "map_sum id (\<lambda>d. (started msm_hdr d, hwpagetable (mmu d), priv (mmu d),
        map (bound_domain (calls d)) [0xA, 0xB, 0xC]))
      (run msm_hdr ?ops dev0) = Inr (True, 0x200, Some io_attached, [0xD200, 0xD200, 0xD200])"
    by code_simp
  then obtain d' where 4: "run msm_hdr ?ops dev0 = Inr d'"
    and 5: "started msm_hdr d'" "hwpagetable (mmu d') = 0x200" "priv (mmu d') = Some io_attached"
      "map (bound_domain (calls d')) [0xA, 0xB, 0xC] = [0xD200, 0xD200, 0xD200]"
    by (cases "run msm_hdr ?ops dev0") auto
  from invariant_preserved[OF 1 2 3 4] 1 2 3 4 5 show ?thesis
    by (intro conjI exI[of _ d']) simp_all
qed

text \<open>
  Counterexample to C1 as stated: the invariant holds before init; after init, start and
  a switch to the null pagetable the controller is started, its hardware pagetable is
  null and no context is attached, so the invariant does not hold.
\<close>

theorem invariant_null_switch_counterexample:
  "MmuController_invariant msm_hdr dev0 \<and>
   map_sum id (\<lambda>d. (started msm_hdr d, hwpagetable (mmu d), MmuController_invariant msm_hdr d))
     (run msm_hdr [Mmu_init env_ok pdata0, Mmu_start env_ok, Mmu_setstate env_ok 0 0] dev0)
     = Inr (True, 0, False)"
  by code_simp

text \<open>
  Claim C9, as amended. When the allocation of the controller state succeeds (and
  \<open>EINVAL\<close> is not 0), \<open>kgsl_iommu_init\<close> returns, and it returns \<open>-EINVAL\<close> exactly when
  the platform data declares more units than the maximum, or a unit declares more
  entries than the per-unit maximum, or an entry with a name cannot be resolved by the
  platform lookup or has a kind that is neither the user nor the privileged context.
  In that case the state allocated is freed (the last call is \<open>kfree\<close>) and \<open>priv\<close> is
  null; otherwise it returns 0 and \<open>priv\<close> is not null. An entry without a name is
  skipped and its kind is not looked at.
\<close>

theorem init_config_error:
  assumes "kzalloc e" "EINVAL h \<noteq> 0"
  shows "\<exists>status d'. kgsl_iommu_init h e pdata d = Inr (status, d') \<and>
     (if KGSL_IOMMU_MAX_UNITS h < length pdata \<or> list_ex (bad_unit h e) pdata
      then status = - EINVAL h \<and> priv (mmu d') = None \<and> last (calls d') = Kfree
      else status = 0 \<and> priv (mmu d') \<noteq> None)"
proof -
  from kgsl_get_iommu_ctxt_ret[OF assms(2), of e pdata "calls d @ [Kzalloc]"]
  obtain io' cs' where
    "kgsl_get_iommu_ctxt h e pdata (zeroed_iommu h, calls d @ [Kzalloc]) =
     Inr (if KGSL_IOMMU_MAX_UNITS h < length pdata \<or> list_ex (bad_unit h e) pdata
          then - EINVAL h else 0, io', cs')" by blast
  with assms show ?thesis
    by (auto simp: kgsl_iommu_init_def)
qed

text \<open>
  Witness for C9: the platform data of the scenario with the name of the third context
  replaced by one the platform does not know, and the platform data of the scenario.
\<close>

theorem init_config_error_witness:
  "kzalloc env_ok \<and> EINVAL msm_hdr \<noteq> 0 \<and>
   \<not> KGSL_IOMMU_MAX_UNITS msm_hdr < length pdata_unknown \<and>
   list_ex (bad_unit msm_hdr env_ok) pdata_unknown \<and>
   (\<exists>d'. kgsl_iommu_init msm_hdr env_ok pdata_unknown dev0 = Inr (- 22, d') \<and>
      priv (mmu d') = None \<and> last (calls d') = Kfree) \<and>
   \<not> list_ex (bad_unit msm_hdr env_ok) pdata0 \<and>
   (\<exists>d'. kgsl_iommu_init msm_hdr env_ok pdata0 dev0 = Inr (0, d') \<and> priv (mmu d') \<noteq> None)"
proof -
  have 1: "kzalloc env_ok" "EINVAL msm_hdr \<noteq> 0" "EINVAL msm_hdr = 22"
    by (simp_all add: ex_defs)
  have 2: "\<not> KGSL_IOMMU_MAX_UNITS msm_hdr < length pdata_unknown"
    "list_ex (bad_unit msm_hdr env_ok) pdata_unknown"
    "\<not> KGSL_IOMMU_MAX_UNITS msm_hdr < length pdata0"
    "\<not> list_ex (bad_unit msm_hdr env_ok) pdata0"
    by (simp_all add: bad_unit_def bad_ctxt_def pdata_unknown_def ex_defs)
  from init_config_error[OF 1(1,2), of pdata_unknown dev0]
    init_config_error[OF 1(1,2), of pdata0 dev0] 1 2
  show ?thesis by simp
qed

text \<open>
  Counterexample to C9 as stated: the only entry of the platform data has no name and
  the kind 7, which is neither the user context (0) nor the privileged context (1);
  init returns 0 and leaves the controller initialised.
\<close>

theorem init_unnamed_kind_counterexample:
  "decl_ctx_id (hd (hd pdata_unnamed)) \<noteq> KGSL_IOMMU_CONTEXT_USER msm_hdr \<and>
   decl_ctx_id (hd (hd pdata_unnamed)) \<noteq> KGSL_IOMMU_CONTEXT_PRIV msm_hdr \<and>
   map_sum id (\<lambda>r. (fst r, priv (mmu (snd r)) \<noteq> None))
     (kgsl_iommu_init msm_hdr env_ok pdata_unnamed dev0) = Inr (0, True)"
  by (simp add: pdata_unnamed_def ex_defs kgsl_iommu_init_def kgsl_get_iommu_ctxt_def
      get_iommu_ctxs_def zeroed_iommu_def)

end
